theory Spec2Isabelle
  imports Complex_Main "HOL-Library.Multiset"
begin

section \<open>Numbers, zones and travel times\<close>

text \<open>
  The planner computes with JavaScript numbers.  They are modelled as \<^typ>\<open>real\<close>: finite
  values with exact arithmetic (no NaN, no infinity, no rounding).  Database identifiers,
  quantities and sequence numbers are integers in the schema and are modelled as \<^typ>\<open>nat\<close>.
  A zone is a string, as in the interface \<open>OrderData\<close>; the program only ever produces the
  five zone names of the schema's enumeration, for which \<open>Object.keys\<close> enumerates in
  insertion order.
\<close>

datatype Helpers = HNone | HOne | HTwo

text \<open>\<open>ZONE_TRAVEL_TIMES\<close>: minutes from the depot to each zone.\<close>

definition ZONE_TRAVEL_TIMES :: "string \<rightharpoonup> real" where
  "ZONE_TRAVEL_TIMES = map_of
     [(''West'', 15), (''Central'', 30), (''South'', 35), (''East'', 45), (''North'', 40)]"

text \<open>\<open>INTER_ZONE_TIMES\<close>: minutes between two zones, keyed by the sorted pair.\<close>

definition INTER_ZONE_TIMES :: "string \<rightharpoonup> real" where
  "INTER_ZONE_TIMES = map_of
     [(''Central-East'', 25), (''Central-North'', 20), (''Central-South'', 15),
      (''Central-West'', 20), (''East-North'', 25), (''East-South'', 30),
      (''East-West'', 40), (''North-South'', 35), (''North-West'', 35),
      (''South-West'', 25)]"

definition DEPOT_RELOAD_TIME :: real where
  "DEPOT_RELOAD_TIME = 30"

text \<open>\<open>ZONE_TRAVEL_TIMES[z] || 30\<close>: no entry of the table is zero, so the default is
  taken exactly for an unknown zone.\<close>

definition zoneTravelTime :: "string \<Rightarrow> real" where
  "zoneTravelTime z = (case ZONE_TRAVEL_TIMES z of Some t \<Rightarrow> t | None \<Rightarrow> 30)"

text \<open>The default comparison of \<open>Array.prototype.sort\<close> on strings: by code units.\<close>

fun str_less :: "string \<Rightarrow> string \<Rightarrow> bool" where
  "str_less [] [] = False"
| "str_less [] (y # ys) = True"
| "str_less (x # xs) [] = False"
| "str_less (x # xs) (y # ys) =
     ((of_char x :: nat) < of_char y \<or> (x = y \<and> str_less xs ys))"

definition getInterZoneTime :: "string \<Rightarrow> string \<Rightarrow> real" where
  "getInterZoneTime zone1 zone2 =
     (if zone1 = zone2 then 5
      else let key = (if str_less zone2 zone1 then zone2 @ ''-'' @ zone1
                      else zone1 @ ''-'' @ zone2)
           in case INTER_ZONE_TIMES key of Some t \<Rightarrow> t | None \<Rightarrow> 30)"

section \<open>Data model of the multi-trip optimizer\<close>

text \<open>
  The records keep the fields the planner reads or writes.  Presentation fields
  (order number, zipcode, coordinates, names) take no part in any decision and are left out.
\<close>

record ItemData =
  it_id :: nat
  it_orderId :: nat
  it_quantity :: nat
  it_length :: real
  it_width :: real
  it_height :: real
  it_weight :: real

record OrderData =
  o_id :: nat
  zone :: string
  sector :: string
  helpersRequired :: Helpers
  totalWeight :: real
  totalVolume :: real
  maxLength :: real
  maxWidth :: real
  maxHeight :: real
  needsTwoPeople :: bool
  items :: "ItemData list"

record TruckData =
  tk_id :: nat
  tk_width :: real
  tk_depth :: real
  tk_height :: real
  tk_maxWeight :: real
  tk_volume :: real

record TruckTrip =
  tripId :: nat
  truckId :: nat
  maxVolume :: real
  maxWeight :: real
  truckDims :: "real \<times> real \<times> real"
  loadedOrders :: "OrderData list"
  currentVolume :: real
  currentWeight :: real
  assignedZones :: "string list"

record TruckWithTrips =
  truck :: TruckData
  trips :: "TruckTrip list"
  totalOrders :: nat
  totalVolumeUsed :: real
  totalWeightUsed :: real
  totalRouteTime :: real

section \<open>Trip helper functions\<close>

text \<open>\<open>xs.sort((a, b) => b - a)\<close> on numbers: descending order.\<close>

definition sortDesc :: "real list \<Rightarrow> real list" where
  "sortDesc xs = rev (sort xs)"

definition canFitInTrip :: "TruckTrip \<Rightarrow> OrderData \<Rightarrow> bool" where
  "canFitInTrip trip ord =
     (if currentVolume trip + totalVolume ord > maxVolume trip then False
      else if currentWeight trip + totalWeight ord > maxWeight trip then False
      else let dims = sortDesc (case truckDims trip of (a, b, c) \<Rightarrow> [a, b, c]);
               orderDims = sortDesc [maxLength ord, maxWidth ord, maxHeight ord]
           in \<not> (\<exists>i \<in> {0, 1, 2}. orderDims ! i > dims ! i))"

definition loadOrderIntoTrip :: "TruckTrip \<Rightarrow> OrderData \<Rightarrow> TruckTrip" where
  "loadOrderIntoTrip trip ord =
     trip\<lparr>loadedOrders := loadedOrders trip @ [ord],
          currentVolume := currentVolume trip + totalVolume ord,
          currentWeight := currentWeight trip + totalWeight ord,
          assignedZones := (if zone ord \<in> set (assignedZones trip) then assignedZones trip
                            else assignedZones trip @ [zone ord])\<rparr>"

text \<open>\<open>Array.from(new Set(zones))\<close>: the first occurrence of each zone, in order.\<close>

fun uniqueZones :: "string list \<Rightarrow> string list \<Rightarrow> string list" where
  "uniqueZones acc [] = acc"
| "uniqueZones acc (z # zs) = uniqueZones (if z \<in> set acc then acc else acc @ [z]) zs"

definition optimizeZoneOrder :: "string list \<Rightarrow> string list" where
  "optimizeZoneOrder zones =
     (let u = uniqueZones [] zones
      in if length u \<le> 1 then u else sort_key zoneTravelTime u)"

text \<open>The loop \<open>for i < zones.length - 1\<close> adding the time between consecutive zones.\<close>

fun interZoneSum :: "string list \<Rightarrow> real" where
  "interZoneSum (a # b # zs) = getInterZoneTime a b + interZoneSum (b # zs)"
| "interZoneSum zs = 0"

text \<open>The time added at one stop: \<open>order.needsTwoPeople ? 15 : 10\<close>.\<close>

definition stopTime :: "OrderData \<Rightarrow> real" where
  "stopTime ord = (if needsTwoPeople ord then 15 else 10)"

definition getTripRouteTime :: "TruckTrip \<Rightarrow> bool \<Rightarrow> real" where
  "getTripRouteTime trip includeReturn =
     (if loadedOrders trip = [] then 0
      else let zones = optimizeZoneOrder (assignedZones trip)
           in if zones = [] then 0
              else zoneTravelTime (hd zones) + interZoneSum zones
                   + foldl (\<lambda>t ord. t + stopTime ord) 0 (loadedOrders trip)
                   + (if includeReturn then zoneTravelTime (last zones) else 0))"

text \<open>The loop of \<open>getTruckTotalRouteTime\<close>: a reload after every trip but the last.\<close>

fun routeTimeLoop :: "real \<Rightarrow> TruckTrip list \<Rightarrow> real" where
  "routeTimeLoop totalTime [] = totalTime"
| "routeTimeLoop totalTime [t] = totalTime + getTripRouteTime t True"
| "routeTimeLoop totalTime (t # u # ts) =
     routeTimeLoop (totalTime + getTripRouteTime t True + DEPOT_RELOAD_TIME) (u # ts)"

definition getTruckTotalRouteTime :: "TruckTrip list \<Rightarrow> real" where
  "getTruckTotalRouteTime ts = (if length ts = 0 then 0 else routeTimeLoop 0 ts)"

section \<open>The multi-trip optimizer \<open>runOptimizationV3\<close>\<close>

definition newTrip :: "nat \<Rightarrow> TruckData \<Rightarrow> TruckTrip" where
  "newTrip n tk =
     \<lparr>tripId = n, truckId = tk_id tk, maxVolume = tk_volume tk, maxWeight = tk_maxWeight tk,
      truckDims = (tk_width tk, tk_depth tk, tk_height tk), loadedOrders = [],
      currentVolume = 0, currentWeight = 0, assignedZones = []\<rparr>"

definition initTruck :: "TruckData \<Rightarrow> TruckWithTrips" where
  "initTruck tk =
     \<lparr>truck = tk, trips = [newTrip 1 tk], totalOrders = 0, totalVolumeUsed = 0,
      totalWeightUsed = 0, totalRouteTime = 0\<rparr>"

text \<open>Step 1: \<open>zoneOrders\<close>, a dictionary in insertion order, as an association list.\<close>

fun pushZoneOrder ::
  "(string \<times> OrderData list) list \<Rightarrow> OrderData \<Rightarrow> (string \<times> OrderData list) list" where
  "pushZoneOrder [] ord = [(zone ord, [ord])]"
| "pushZoneOrder ((z, os) # rest) ord =
     (if z = zone ord then (z, os @ [ord]) # rest else (z, os) # pushZoneOrder rest ord)"

text \<open>\<open>xs.sort((a, b) => b.totalVolume - a.totalVolume)\<close>: stable, descending volume.\<close>

definition sortByVolumeDesc :: "OrderData list \<Rightarrow> OrderData list" where
  "sortByVolumeDesc os = sort_key (\<lambda>ord. - totalVolume ord) os"

definition groupByZone :: "OrderData list \<Rightarrow> (string \<times> OrderData list) list" where
  "groupByZone ordersData =
     map (\<lambda>(z, os). (z, sortByVolumeDesc os)) (foldl pushZoneOrder [] ordersData)"

text \<open>Step 2: the demand of each zone, the zones by descending demand.\<close>

record ZoneDemand =
  zd_volume :: real
  zd_weight :: real
  zd_count :: nat

definition zoneDemandOf :: "OrderData list \<Rightarrow> ZoneDemand" where
  "zoneDemandOf os =
     \<lparr>zd_volume = foldl (\<lambda>s ord. s + totalVolume ord) 0 os,
      zd_weight = foldl (\<lambda>s ord. s + totalWeight ord) 0 os,
      zd_count = length os\<rparr>"

definition zoneDemandsOf :: "(string \<times> OrderData list) list \<Rightarrow> (string \<times> ZoneDemand) list" where
  "zoneDemandsOf zoneOrders = map (\<lambda>(z, os). (z, zoneDemandOf os)) zoneOrders"

definition sortedZonesOf :: "(string \<times> ZoneDemand) list \<Rightarrow> string list" where
  "sortedZonesOf zoneDemands = map fst (sort_key (\<lambda>(z, d). - zd_volume d) zoneDemands)"

definition sortTrucks :: "TruckWithTrips list \<Rightarrow> TruckWithTrips list" where
  "sortTrucks tw = sort_key (\<lambda>t. - tk_volume (truck t)) tw"

text \<open>
  The trucks are shared objects: \<open>zoneTruckMap\<close> holds references to the entries of
  \<open>trucksWithTrips\<close>.  A reference is modelled as the index of the truck in the sorted list,
  which no later step reorders.
\<close>

fun zoneTruckLoop ::
  "TruckWithTrips list \<Rightarrow> real \<Rightarrow> nat list \<Rightarrow> real \<Rightarrow> nat list \<Rightarrow> nat set
     \<Rightarrow> nat list \<times> nat set" where
  "zoneTruckLoop tw neededVolume [] assignedVolume sel usedTrucks = (sel, usedTrucks)"
| "zoneTruckLoop tw neededVolume (i # is) assignedVolume sel usedTrucks =
     (if tk_id (truck (tw ! i)) \<in> usedTrucks
        then zoneTruckLoop tw neededVolume is assignedVolume sel usedTrucks
      else if assignedVolume \<ge> neededVolume then (sel, usedTrucks)
      else zoneTruckLoop tw neededVolume is (assignedVolume + tk_volume (truck (tw ! i)))
             (sel @ [i]) (insert (tk_id (truck (tw ! i))) usedTrucks))"

definition demandVolume :: "(string \<times> ZoneDemand) list \<Rightarrow> string \<Rightarrow> real" where
  "demandVolume zoneDemands z = (case map_of zoneDemands z of Some d \<Rightarrow> zd_volume d | None \<Rightarrow> 0)"

fun assignTrucksToZones ::
  "TruckWithTrips list \<Rightarrow> (string \<times> ZoneDemand) list \<Rightarrow> string list
     \<Rightarrow> (string \<Rightarrow> nat list) \<times> nat set \<Rightarrow> (string \<Rightarrow> nat list) \<times> nat set" where
  "assignTrucksToZones tw zoneDemands [] st = st"
| "assignTrucksToZones tw zoneDemands (z # zs) (zoneTruckMap, usedTrucks) =
     (case zoneTruckLoop tw (demandVolume zoneDemands z) [0..<length tw] 0 [] usedTrucks of
        (sel, used') \<Rightarrow> assignTrucksToZones tw zoneDemands zs (zoneTruckMap(z := sel), used'))"

text \<open>\<open>sortedZones[0] || 'Central'\<close>: the empty string is falsy too.\<close>

definition bestZoneOf :: "string list \<Rightarrow> string" where
  "bestZoneOf sortedZones =
     (case sortedZones of [] \<Rightarrow> ''Central'' | z # _ \<Rightarrow> if z = [] then ''Central'' else z)"

fun assignRemainingTrucks ::
  "TruckWithTrips list \<Rightarrow> string \<Rightarrow> nat list \<Rightarrow> (string \<Rightarrow> nat list) \<times> nat set
     \<Rightarrow> (string \<Rightarrow> nat list) \<times> nat set" where
  "assignRemainingTrucks tw bestZone [] st = st"
| "assignRemainingTrucks tw bestZone (i # is) (zoneTruckMap, usedTrucks) =
     (if tk_id (truck (tw ! i)) \<notin> usedTrucks
        then assignRemainingTrucks tw bestZone is
               (zoneTruckMap(bestZone := zoneTruckMap bestZone @ [i]),
                insert (tk_id (truck (tw ! i))) usedTrucks)
      else assignRemainingTrucks tw bestZone is (zoneTruckMap, usedTrucks))"

definition buildZoneTruckMap ::
  "TruckWithTrips list \<Rightarrow> (string \<times> ZoneDemand) list \<Rightarrow> string list \<Rightarrow> string \<Rightarrow> nat list" where
  "buildZoneTruckMap tw zoneDemands sortedZones =
     fst (assignRemainingTrucks tw (bestZoneOf sortedZones) [0..<length tw]
            (assignTrucksToZones tw zoneDemands sortedZones (\<lambda>z. [], {})))"

text \<open>Step 3: Best-Fit Decreasing into the current (last) trip of each truck.\<close>

definition currentTripOf :: "TruckWithTrips \<Rightarrow> TruckTrip" where
  "currentTripOf t = last (trips t)"

fun findBestTruck ::
  "TruckWithTrips list \<Rightarrow> OrderData \<Rightarrow> nat list \<Rightarrow> (nat \<times> real) option \<Rightarrow> (nat \<times> real) option" where
  "findBestTruck tw ord [] best = best"
| "findBestTruck tw ord (i # is) best =
     (let currentTrip = currentTripOf (tw ! i)
      in if canFitInTrip currentTrip ord
         then let remaining = maxVolume currentTrip - currentVolume currentTrip - totalVolume ord
              in (case best of
                    None \<Rightarrow> findBestTruck tw ord is (Some (i, remaining))
                  | Some (b, bestRemaining) \<Rightarrow>
                      if remaining < bestRemaining then findBestTruck tw ord is (Some (i, remaining))
                      else findBestTruck tw ord is best)
         else findBestTruck tw ord is best)"

definition loadIntoCurrentTrip :: "TruckWithTrips list \<Rightarrow> nat \<Rightarrow> OrderData \<Rightarrow> TruckWithTrips list" where
  "loadIntoCurrentTrip tw i ord =
     tw[i := (tw ! i)\<lparr>trips := butlast (trips (tw ! i))
                               @ [loadOrderIntoTrip (currentTripOf (tw ! i)) ord]\<rparr>]"

fun tryAnyTruck :: "TruckWithTrips list \<Rightarrow> OrderData \<Rightarrow> nat list \<Rightarrow> TruckWithTrips list option" where
  "tryAnyTruck tw ord [] = None"
| "tryAnyTruck tw ord (i # is) =
     (if canFitInTrip (currentTripOf (tw ! i)) ord then Some (loadIntoCurrentTrip tw i ord)
      else tryAnyTruck tw ord is)"

definition packOrder ::
  "nat list \<Rightarrow> TruckWithTrips list \<times> OrderData list \<Rightarrow> OrderData
     \<Rightarrow> TruckWithTrips list \<times> OrderData list" where
  "packOrder assignedTrucks st ord =
     (case st of (tw, unassigned) \<Rightarrow>
        (case findBestTruck tw ord assignedTrucks None of
           Some (b, r) \<Rightarrow> (loadIntoCurrentTrip tw b ord, unassigned)
         | None \<Rightarrow>
             (case tryAnyTruck tw ord [0..<length tw] of
                Some tw' \<Rightarrow> (tw', unassigned)
              | None \<Rightarrow> (tw, unassigned @ [ord]))))"

definition zoneOrdersOf :: "(string \<times> OrderData list) list \<Rightarrow> string \<Rightarrow> OrderData list" where
  "zoneOrdersOf zoneOrders z = (case map_of zoneOrders z of Some os \<Rightarrow> os | None \<Rightarrow> [])"

definition packZone ::
  "(string \<times> OrderData list) list \<Rightarrow> (string \<Rightarrow> nat list)
     \<Rightarrow> TruckWithTrips list \<times> OrderData list \<Rightarrow> string \<Rightarrow> TruckWithTrips list \<times> OrderData list" where
  "packZone zoneOrders zoneTruckMap st z =
     foldl (packOrder (zoneTruckMap z)) st (zoneOrdersOf zoneOrders z)"

text \<open>Step 4: the orders left over, with a new trip opened where the current one is full.\<close>

definition openNewTrip :: "TruckWithTrips list \<Rightarrow> nat \<Rightarrow> TruckWithTrips list" where
  "openNewTrip tw i =
     tw[i := (tw ! i)\<lparr>trips := trips (tw ! i)
                               @ [newTrip (length (trips (tw ! i)) + 1) (truck (tw ! i))]\<rparr>]"

fun multiTripLoop ::
  "OrderData \<Rightarrow> nat list \<Rightarrow> TruckWithTrips list \<Rightarrow> TruckWithTrips list \<times> bool" where
  "multiTripLoop ord [] tw = (tw, False)"
| "multiTripLoop ord (i # is) tw =
     (let tw1 = (if \<not> canFitInTrip (currentTripOf (tw ! i)) ord then openNewTrip tw i else tw)
      in if canFitInTrip (currentTripOf (tw1 ! i)) ord then (loadIntoCurrentTrip tw1 i ord, True)
         else multiTripLoop ord is tw1)"

definition packRemaining ::
  "TruckWithTrips list \<times> OrderData list \<Rightarrow> OrderData \<Rightarrow> TruckWithTrips list \<times> OrderData list" where
  "packRemaining st ord =
     (case st of (tw, unassigned) \<Rightarrow>
        (let sortedTrucks = sort_key (\<lambda>i. - tk_volume (truck (tw ! i))) [0..<length tw]
         in case multiTripLoop ord sortedTrucks tw of
              (tw', packed) \<Rightarrow> if packed then (tw', unassigned) else (tw', unassigned @ [ord])))"

text \<open>The totals of each truck and the summary.  The rounded figures (assignment rate,
  utilization percentages, hours, zone summary) and the bottleneck name are left out.\<close>

definition computeTotals :: "TruckWithTrips \<Rightarrow> TruckWithTrips" where
  "computeTotals t =
     t\<lparr>totalOrders := foldl (\<lambda>s tr. s + length (loadedOrders tr)) 0 (trips t),
       totalVolumeUsed := foldl (\<lambda>s tr. s + currentVolume tr) 0 (trips t),
       totalWeightUsed := foldl (\<lambda>s tr. s + currentWeight tr) 0 (trips t),
       totalRouteTime := getTruckTotalRouteTime (trips t)\<rparr>"

record Summary =
  s_totalOrders :: nat
  s_assignedOrders :: nat
  s_unassignedOrders :: nat
  s_totalTrips :: nat
  s_totalElapsedTimeMin :: real
  s_depotReloadTimePerTripMin :: real

record OptResult =
  trucksWithTrips :: "TruckWithTrips list"
  unassignedOrders :: "OrderData list"
  summary :: Summary

definition packAll :: "OrderData list \<Rightarrow> TruckData list \<Rightarrow> TruckWithTrips list \<times> OrderData list" where
  "packAll ordersData trucksData =
     (let tw0 = sortTrucks (map initTruck trucksData);
          zoneOrders = groupByZone ordersData;
          zoneDemands = zoneDemandsOf zoneOrders;
          sortedZones = sortedZonesOf zoneDemands;
          zoneTruckMap = buildZoneTruckMap tw0 zoneDemands sortedZones;
          st3 = foldl (packZone zoneOrders zoneTruckMap) (tw0, []) sortedZones;
          remainingOrders = sortByVolumeDesc (snd st3)
      in foldl packRemaining (fst st3, []) remainingOrders)"

definition runOptimizationV3 :: "OrderData list \<Rightarrow> TruckData list \<Rightarrow> OptResult" where
  "runOptimizationV3 ordersData trucksData =
     (case packAll ordersData trucksData of (tw, unassigned) \<Rightarrow>
        (let tw' = map computeTotals tw
         in \<lparr>trucksWithTrips = tw',
             unassignedOrders = unassigned,
             summary =
               \<lparr>s_totalOrders = length ordersData,
                s_assignedOrders = foldl (\<lambda>s t. s + totalOrders t) 0 tw',
                s_unassignedOrders = length unassigned,
                s_totalTrips = foldl (\<lambda>s t. s + length (trips t)) 0 tw',
                s_totalElapsedTimeMin = foldr max (map totalRouteTime tw') 0,
                s_depotReloadTimePerTripMin = DEPOT_RELOAD_TIME\<rparr>\<rparr>))"

text \<open>The list \<open>unassignedOrders\<close> as \<open>autoOptimize\<close> reports it (the rounded volume and
  weight left out).\<close>

record UnassignedReport =
  ur_id :: nat
  ur_zone :: string
  ur_reason :: string

definition reportUnassigned :: "OrderData list \<Rightarrow> UnassignedReport list" where
  "reportUnassigned os =
     map (\<lambda>ord. \<lparr>ur_id = o_id ord, ur_zone = zone ord,
                  ur_reason = ''No available truck with capacity''\<rparr>) os"

section \<open>Building the orders in \<open>autoOptimize\<close>\<close>

text \<open>\<open>ZONE_MAPPING\<close>: the postal sector (first two digits) to the zone.\<close>

definition ZONE_MAPPING :: "string \<rightharpoonup> string" where
  "ZONE_MAPPING = map_of
     [(''01'', ''Central''), (''02'', ''Central''), (''03'', ''Central''),
      (''04'', ''Central''), (''05'', ''Central''), (''06'', ''Central''),
      (''07'', ''Central''), (''08'', ''Central''), (''14'', ''Central''),
      (''15'', ''Central''), (''16'', ''Central''), (''17'', ''Central''),
      (''18'', ''Central''), (''19'', ''Central''), (''20'', ''Central''),
      (''21'', ''Central''), (''38'', ''East''), (''39'', ''East''), (''40'', ''East''),
      (''41'', ''East''), (''42'', ''East''), (''43'', ''East''), (''44'', ''East''),
      (''45'', ''East''), (''46'', ''East''), (''47'', ''East''), (''48'', ''East''),
      (''49'', ''East''), (''50'', ''East''), (''51'', ''East''), (''52'', ''East''),
      (''53'', ''North''), (''54'', ''North''), (''55'', ''North''), (''56'', ''North''),
      (''57'', ''North''), (''72'', ''North''), (''73'', ''North''), (''75'', ''North''),
      (''76'', ''North''), (''77'', ''North''), (''78'', ''North''), (''79'', ''North''),
      (''80'', ''North''), (''81'', ''North''), (''82'', ''North''), (''22'', ''West''),
      (''23'', ''West''), (''58'', ''West''), (''59'', ''West''), (''60'', ''West''),
      (''61'', ''West''), (''62'', ''West''), (''63'', ''West''), (''64'', ''West''),
      (''65'', ''West''), (''66'', ''West''), (''67'', ''West''), (''68'', ''West''),
      (''69'', ''West''), (''70'', ''West''), (''71'', ''West''), (''09'', ''South''),
      (''10'', ''South''), (''11'', ''South''), (''12'', ''South''), (''13'', ''South''),
      (''24'', ''South''), (''25'', ''South''), (''26'', ''South''), (''27'', ''South''),
      (''28'', ''South''), (''29'', ''South''), (''30'', ''South''), (''31'', ''South''),
      (''32'', ''South''), (''33'', ''South''), (''34'', ''South''), (''35'', ''South''),
      (''36'', ''South''), (''37'', ''South'')]"

definition padStart6 :: "string \<Rightarrow> string" where
  "padStart6 s = replicate (6 - length s) (CHR ''0'') @ s"

definition getZoneFromZipcode :: "string \<Rightarrow> string" where
  "getZoneFromZipcode zipcode =
     (case ZONE_MAPPING (take 2 (padStart6 zipcode)) of Some z \<Rightarrow> z | None \<Rightarrow> ''Central'')"

text \<open>
  A row of the join of order items and SKUs: the decimal columns may be null.
  \<open>Number(v) || d\<close> takes the default for null and for zero.
\<close>

record ItemRow =
  ir_id :: nat
  ir_orderId :: nat
  ir_quantity :: nat
  ir_length :: "real option"
  ir_width :: "real option"
  ir_height :: "real option"
  ir_weight :: "real option"

record OrderRow =
  or_id :: nat
  or_zipcode :: string
  or_deliveryZone :: "string option"
  or_helpersRequired :: Helpers

definition numberOr :: "real option \<Rightarrow> real \<Rightarrow> real" where
  "numberOr v d = (case v of None \<Rightarrow> d | Some r \<Rightarrow> if r = 0 then d else r)"

text \<open>\<open>Math.max(...xs)\<close> of a non-empty list.\<close>

definition maxOf :: "real list \<Rightarrow> real" where
  "maxOf xs = foldl max (hd xs) (tl xs)"

text \<open>
  The \<open>OrderData\<close> that \<open>autoOptimize\<close> builds from an order and its item rows.  For an
  order without item rows JavaScript computes the dimensions \<open>Math.max() = -Infinity\<close>,
  which the number model does not have: the result is \<open>None\<close> there.
\<close>

definition buildOrderData :: "OrderRow \<Rightarrow> ItemRow list \<Rightarrow> OrderData option" where
  "buildOrderData row rows =
     (if rows = [] then None
      else let tw = foldl (\<lambda>s r. s + numberOr (ir_weight r) 5 * real (ir_quantity r)) 0 rows;
               tv = foldl (\<lambda>s r. s + numberOr (ir_length r) 30 * numberOr (ir_width r) 30
                                        * numberOr (ir_height r) 30 * real (ir_quantity r)) 0 rows;
               zipcode = padStart6 (or_zipcode row)
           in Some
             \<lparr>o_id = or_id row,
              zone = (case or_deliveryZone row of
                        None \<Rightarrow> getZoneFromZipcode zipcode
                      | Some z \<Rightarrow> if z = [] then getZoneFromZipcode zipcode else z),
              sector = take 2 zipcode,
              helpersRequired = or_helpersRequired row,
              totalWeight = tw,
              totalVolume = tv,
              maxLength = maxOf (map (\<lambda>r. numberOr (ir_length r) 30) rows),
              maxWidth = maxOf (map (\<lambda>r. numberOr (ir_width r) 30) rows),
              maxHeight = maxOf (map (\<lambda>r. numberOr (ir_height r) 30) rows),
              needsTwoPeople = (tw > 50),
              items = map (\<lambda>r. \<lparr>it_id = ir_id r, it_orderId = ir_orderId r,
                                   it_quantity = ir_quantity r,
                                   it_length = numberOr (ir_length r) 30,
                                   it_width = numberOr (ir_width r) 30,
                                   it_height = numberOr (ir_height r) 30,
                                   it_weight = numberOr (ir_weight r) 5\<rparr>) rows\<rparr>)"

section \<open>The free-space packer \<open>packItems\<close>\<close>

record Item =
  item_id :: nat
  item_length :: real
  item_width :: real
  item_height :: real
  item_weight :: real
  item_volume :: real

record PackedItem = Item +
  pos_x :: real
  pos_y :: real
  pos_z :: real
  rotation :: nat
  rotatedLength :: real
  rotatedWidth :: real

record Bin =
  bin_width :: real
  bin_depth :: real
  bin_height :: real
  bin_maxWeight :: real

text \<open>A free box: its corner and its extent along x (\<open>w\<close>), y (\<open>d\<close>) and z (\<open>h\<close>).\<close>

record Space =
  sp_x :: real
  sp_y :: real
  sp_z :: real
  sp_w :: real
  sp_d :: real
  sp_h :: real

record PackState =
  ps_spaces :: "Space list"
  ps_packedItems :: "PackedItem list"
  ps_unpackedItems :: "Item list"
  ps_totalWeight :: real
  ps_totalVolume :: real

text \<open>The scan \<open>for i < spaces.length\<close> for one rotation: \<open>bestSpace\<close> and its index.\<close>

fun scanSpaces ::
  "real \<Rightarrow> real \<Rightarrow> real \<Rightarrow> Space list \<Rightarrow> nat \<Rightarrow> (Space \<times> nat) option
     \<Rightarrow> (Space \<times> nat) option" where
  "scanSpaces rl rw h [] i best = best"
| "scanSpaces rl rw h (space # rest) i best =
     (if rl \<le> sp_w space \<and> rw \<le> sp_d space \<and> h \<le> sp_h space
      then (case best of
              None \<Rightarrow> scanSpaces rl rw h rest (Suc i) (Some (space, i))
            | Some (bestSpace, bi) \<Rightarrow>
                if sp_z space < sp_z bestSpace
                   \<or> (sp_z space = sp_z bestSpace \<and> sp_y space < sp_y bestSpace)
                   \<or> (sp_z space = sp_z bestSpace \<and> sp_y space = sp_y bestSpace
                        \<and> sp_x space < sp_x bestSpace)
                then scanSpaces rl rw h rest (Suc i) (Some (space, i))
                else scanSpaces rl rw h rest (Suc i) best)
      else scanSpaces rl rw h rest (Suc i) best)"

text \<open>The free boxes after a placement: the chosen one spliced out, up to three pushed.\<close>

definition newSpaces :: "Space list \<Rightarrow> Space \<Rightarrow> nat \<Rightarrow> real \<Rightarrow> real \<Rightarrow> real \<Rightarrow> Space list" where
  "newSpaces spaces bestSpace bestSpaceIndex rl rw h =
     take bestSpaceIndex spaces @ drop (Suc bestSpaceIndex) spaces
     @ (if sp_w bestSpace - rl > 0
        then [\<lparr>sp_x = sp_x bestSpace + rl, sp_y = sp_y bestSpace, sp_z = sp_z bestSpace,
               sp_w = sp_w bestSpace - rl, sp_d = sp_d bestSpace, sp_h = sp_h bestSpace\<rparr>]
        else [])
     @ (if sp_d bestSpace - rw > 0
        then [\<lparr>sp_x = sp_x bestSpace, sp_y = sp_y bestSpace + rw, sp_z = sp_z bestSpace,
               sp_w = rl, sp_d = sp_d bestSpace - rw, sp_h = sp_h bestSpace\<rparr>]
        else [])
     @ (if sp_h bestSpace - h > 0
        then [\<lparr>sp_x = sp_x bestSpace, sp_y = sp_y bestSpace, sp_z = sp_z bestSpace + h,
               sp_w = rl, sp_d = rw, sp_h = sp_h bestSpace - h\<rparr>]
        else [])"

text \<open>One rotation of one item: \<open>None\<close> when no free box fits.\<close>

definition tryRotation :: "PackState \<Rightarrow> Item \<Rightarrow> nat \<Rightarrow> real \<Rightarrow> real \<Rightarrow> PackState option" where
  "tryRotation st item rot rl rw =
     (case scanSpaces rl rw (item_height item) (ps_spaces st) 0 None of
        None \<Rightarrow> None
      | Some (bestSpace, bestSpaceIndex) \<Rightarrow>
          Some \<lparr>ps_spaces = newSpaces (ps_spaces st) bestSpace bestSpaceIndex rl rw (item_height item),
                ps_packedItems = ps_packedItems st @
                  [Item.extend item
                     \<lparr>pos_x = sp_x bestSpace, pos_y = sp_y bestSpace, pos_z = sp_z bestSpace,
                      rotation = rot, rotatedLength = rl, rotatedWidth = rw\<rparr>],
                ps_unpackedItems = ps_unpackedItems st,
                ps_totalWeight = ps_totalWeight st + item_weight item,
                ps_totalVolume = ps_totalVolume st + item_volume item\<rparr>)"

definition packStep :: "Bin \<Rightarrow> PackState \<Rightarrow> Item \<Rightarrow> PackState" where
  "packStep bin st item =
     (if ps_totalWeight st + item_weight item > bin_maxWeight bin
      then st\<lparr>ps_unpackedItems := ps_unpackedItems st @ [item]\<rparr>
      else (case tryRotation st item 0 (item_length item) (item_width item) of
              Some st' \<Rightarrow> st'
            | None \<Rightarrow>
                (case tryRotation st item 90 (item_width item) (item_length item) of
                   Some st' \<Rightarrow> st'
                 | None \<Rightarrow> st\<lparr>ps_unpackedItems := ps_unpackedItems st @ [item]\<rparr>)))"

definition initPackState :: "Bin \<Rightarrow> PackState" where
  "initPackState bin =
     \<lparr>ps_spaces = [\<lparr>sp_x = 0, sp_y = 0, sp_z = 0, sp_w = bin_width bin, sp_d = bin_depth bin,
                    sp_h = bin_height bin\<rparr>],
      ps_packedItems = [], ps_unpackedItems = [], ps_totalWeight = 0, ps_totalVolume = 0\<rparr>"

text \<open>The accumulation of the weighted centers, then the division by the total weight.\<close>

definition cogSums :: "PackedItem list \<Rightarrow> real \<times> real \<times> real" where
  "cogSums ps =
     foldl (\<lambda>(cx, cy, cz) p.
              (cx + (pos_x p + rotatedLength p / 2) * item_weight p,
               cy + (pos_y p + rotatedWidth p / 2) * item_weight p,
               cz + (pos_z p + item_height p / 2) * item_weight p)) (0, 0, 0) ps"

definition centerOfGravityOf :: "PackedItem list \<Rightarrow> real \<Rightarrow> real \<times> real \<times> real" where
  "centerOfGravityOf ps tw =
     (if tw > 0 then (case cogSums ps of (cx, cy, cz) \<Rightarrow> (cx / tw, cy / tw, cz / tw))
      else (0, 0, 0))"

definition isBalancedOf :: "Bin \<Rightarrow> real \<times> real \<times> real \<Rightarrow> bool" where
  "isBalancedOf bin cog =
     (case cog of (cogX, cogY, cogZ) \<Rightarrow>
        \<bar>cogX - bin_width bin / 2\<bar> \<le> bin_width bin * (3 / 10)
        \<and> \<bar>cogY - bin_depth bin / 2\<bar> \<le> bin_depth bin * (3 / 10))"

text \<open>The result; the two utilization percentages (quotients by the container volume and
  by the maximal weight) are left out.\<close>

record OptimizationResult =
  success :: bool
  packedItems :: "PackedItem list"
  unpackedItems :: "Item list"
  binVolume :: real
  usedVolume :: real
  packedWeight :: real
  centerOfGravity :: "real \<times> real \<times> real"
  isBalanced :: bool

definition packItems :: "Item list \<Rightarrow> Bin \<Rightarrow> OptimizationResult" where
  "packItems its bin =
     (let sortedItems = sort_key (\<lambda>i. - item_volume i) its;
          st = foldl (packStep bin) (initPackState bin) sortedItems;
          cog = centerOfGravityOf (ps_packedItems st) (ps_totalWeight st)
      in \<lparr>success = (ps_unpackedItems st = []),
          packedItems = ps_packedItems st,
          unpackedItems = ps_unpackedItems st,
          binVolume = bin_width bin * bin_depth bin * bin_height bin,
          usedVolume = ps_totalVolume st,
          packedWeight = ps_totalWeight st,
          centerOfGravity = cog,
          isBalanced = isBalancedOf bin cog\<rparr>)"

section \<open>The load-plan generator \<open>generateLoadPlan\<close>\<close>

text \<open>A route stop, as far as the generator reads it; a unit is one piece of an order line
  (\<open>{...item, orderId: order.id, sequence}\<close>).\<close>

record RouteStop =
  rs_orderId :: nat
  rs_sequence :: nat

record LoadUnit =
  lu_item :: ItemData
  lu_orderId :: nat
  lu_sequence :: nat

datatype Placement = Front | Middle | Back

record LoadPlanItem =
  lp_orderItemId :: nat
  lp_orderId :: nat
  lp_x :: real
  lp_y :: real
  lp_z :: real
  lp_rotatedLength :: real
  lp_rotatedWidth :: real
  lp_height :: real
  lp_weight :: real
  lp_rotation :: nat
  lp_placement :: Placement

text \<open>\<open>route.find(r => r.orderId === order.id)?.sequence || 999\<close>.\<close>

definition sequenceOf :: "RouteStop list \<Rightarrow> OrderData \<Rightarrow> nat" where
  "sequenceOf route ord =
     (case find (\<lambda>r. rs_orderId r = o_id ord) route of
        None \<Rightarrow> 999
      | Some r \<Rightarrow> if rs_sequence r = 0 then 999 else rs_sequence r)"

definition expandUnits :: "OrderData list \<Rightarrow> RouteStop list \<Rightarrow> LoadUnit list" where
  "expandUnits os route =
     concat (map (\<lambda>ord. concat (map (\<lambda>it. replicate (it_quantity it)
                    \<lparr>lu_item = it, lu_orderId = o_id ord, lu_sequence = sequenceOf route ord\<rparr>)
                  (items ord))) os)"

text \<open>\<open>allItems.sort((a, b) => b.sequence - a.sequence)\<close>: stable, descending sequence.\<close>

definition sortBySequenceDesc :: "LoadUnit list \<Rightarrow> LoadUnit list" where
  "sortBySequenceDesc us = sort_key (\<lambda>u. - int (lu_sequence u)) us"

text \<open>\<open>Math.ceil(n / 3)\<close>.\<close>

definition itemsPerSectionOf :: "nat \<Rightarrow> nat" where
  "itemsPerSectionOf n = (n + 2) div 3"

text \<open>The loop over the indices of \<open>allItems\<close> distributing the units over the sections
  (back, middle, front).\<close>

fun assignSections ::
  "nat \<Rightarrow> nat \<Rightarrow> LoadUnit list \<Rightarrow> LoadUnit list \<times> LoadUnit list \<times> LoadUnit list
     \<Rightarrow> LoadUnit list \<times> LoadUnit list \<times> LoadUnit list" where
  "assignSections itemsPerSection i [] secs = secs"
| "assignSections itemsPerSection i (u # us) (back, middle, front) =
     (if i < itemsPerSection
        then assignSections itemsPerSection (Suc i) us (back @ [u], middle, front)
      else if i < itemsPerSection * 2
        then assignSections itemsPerSection (Suc i) us (back, middle @ [u], front)
      else assignSections itemsPerSection (Suc i) us (back, middle, front @ [u]))"

definition sectionsOf :: "LoadUnit list \<Rightarrow> LoadUnit list \<times> LoadUnit list \<times> LoadUnit list" where
  "sectionsOf allItems =
     assignSections (itemsPerSectionOf (length allItems)) 0 allItems ([], [], [])"

text \<open>The Y-band \<open>(startY, endY)\<close> of each section.\<close>

definition sectionBand :: "TruckData \<Rightarrow> Placement \<Rightarrow> real \<times> real" where
  "sectionBand tk p =
     (let sectionDepth = tk_depth tk / 3
      in case p of
           Back \<Rightarrow> (0, sectionDepth)
         | Middle \<Rightarrow> (sectionDepth, sectionDepth * 2)
         | Front \<Rightarrow> (sectionDepth * 2, tk_depth tk))"

text \<open>\<open>v || d\<close> on a number: the default for zero.\<close>

definition orDefault :: "real \<Rightarrow> real \<Rightarrow> real" where
  "orDefault v d = (if v = 0 then d else v)"

text \<open>The shelf packer of one section: the cursor and the plan so far.\<close>

record ShelfState =
  currentX :: real
  currentY :: real
  currentZ :: real
  layerHeight :: real
  rowWidth :: real
  loadPlan :: "LoadPlanItem list"

definition shelfStep ::
  "TruckData \<Rightarrow> Placement \<Rightarrow> real \<times> real \<Rightarrow> ShelfState \<Rightarrow> LoadUnit \<Rightarrow> ShelfState" where
  "shelfStep tk sectionName band st u =
     (let len = orDefault (it_length (lu_item u)) 30;
          wid = orDefault (it_width (lu_item u)) 30;
          hgt = orDefault (it_height (lu_item u)) 30;
          st1 = (if currentX st + len > tk_width tk
                 then st\<lparr>currentX := 0, currentY := currentY st + rowWidth st, rowWidth := 0\<rparr>
                 else st);
          st2 = (if currentY st1 + wid > snd band
                 then st1\<lparr>currentX := 0, currentY := fst band,
                          currentZ := currentZ st1 + layerHeight st1,
                          layerHeight := 0, rowWidth := 0\<rparr>
                 else st1)
      in if currentZ st2 + hgt > tk_height tk then st2
         else st2\<lparr>loadPlan := loadPlan st2 @
                     [\<lparr>lp_orderItemId = it_id (lu_item u), lp_orderId = lu_orderId u,
                       lp_x = currentX st2, lp_y = currentY st2, lp_z = currentZ st2,
                       lp_rotatedLength = len, lp_rotatedWidth = wid, lp_height = hgt,
                       lp_weight = orDefault (it_weight (lu_item u)) 5, lp_rotation = 0,
                       lp_placement = sectionName\<rparr>],
                  currentX := currentX st2 + len,
                  layerHeight := max (layerHeight st2) hgt,
                  rowWidth := max (rowWidth st2) wid\<rparr>)"

definition packSection ::
  "TruckData \<Rightarrow> LoadPlanItem list \<Rightarrow> Placement \<times> LoadUnit list \<Rightarrow> LoadPlanItem list" where
  "packSection tk plan sec =
     (case sec of (sectionName, us) \<Rightarrow>
        loadPlan (foldl (shelfStep tk sectionName (sectionBand tk sectionName))
                    \<lparr>currentX = 0, currentY = fst (sectionBand tk sectionName), currentZ = 0,
                     layerHeight = 0, rowWidth = 0, loadPlan = plan\<rparr>
                    (sort_key (\<lambda>u. - it_weight (lu_item u)) us)))"

definition generateLoadPlan :: "TruckTrip \<Rightarrow> RouteStop list \<Rightarrow> TruckData \<Rightarrow> LoadPlanItem list" where
  "generateLoadPlan trip route tk =
     (case sectionsOf (sortBySequenceDesc (expandUnits (loadedOrders trip) route)) of
        (back, middle, front) \<Rightarrow>
          foldl (packSection tk) [] [(Back, back), (Middle, middle), (Front, front)])"

section \<open>The single-trip planner \<open>assignOrdersToTrucks\<close>\<close>

text \<open>The order of this planner: its zone may be null.\<close>

record PlanOrder =
  po_id :: nat
  po_zone :: "string option"
  po_helpersRequired :: Helpers
  po_totalWeight :: real
  po_totalVolume :: real

record TruckAssignment =
  ta_truck :: TruckData
  ta_orders :: "PlanOrder list"
  ta_totalWeight :: real
  ta_totalVolume :: real
  ta_helpersNeeded :: int

text \<open>\<open>HELPER_OPTIONS[h].count\<close>.\<close>

fun helperCount :: "Helpers \<Rightarrow> int" where
  "helperCount HNone = 0"
| "helperCount HOne = 1"
| "helperCount HTwo = 2"

text \<open>
  \<open>zoneDistances\<close>: the zones of \<open>ZONES\<close> sorted by their Haversine distance from the depot.
  The zones and the depot are constants of the program, so the order is fixed: West (7.6 km),
  North (20.6 km), South (20.8 km), Central (23.5 km), East (33.6 km).
\<close>

definition zoneDistances :: "string list" where
  "zoneDistances = [''West'', ''North'', ''South'', ''Central'', ''East'']"

text \<open>\<open>order.zone || "Central"\<close>.\<close>

definition zoneOrCentral :: "PlanOrder \<Rightarrow> string" where
  "zoneOrCentral ord =
     (case po_zone ord of None \<Rightarrow> ''Central'' | Some z \<Rightarrow> if z = [] then ''Central'' else z)"

text \<open>The search for an assignment serving the same zone with room for the order: its index.\<close>

fun findAssignment :: "TruckAssignment list \<Rightarrow> PlanOrder \<Rightarrow> nat \<Rightarrow> nat option" where
  "findAssignment [] ord k = None"
| "findAssignment (a # as) ord k =
     (if \<not> (\<exists>p \<in> set (ta_orders a). po_zone p = po_zone ord) then findAssignment as ord (Suc k)
      else if ta_totalWeight a + po_totalWeight ord \<le> tk_maxWeight (ta_truck a)
              \<and> ta_totalVolume a + po_totalVolume ord \<le> tk_volume (ta_truck a)
        then Some k
      else findAssignment as ord (Suc k))"

text \<open>\<open>availableTrucks.splice(findIndex(t => t.id === bestTruck.id), 1)\<close>.\<close>

fun removeTruck :: "nat \<Rightarrow> TruckData list \<Rightarrow> TruckData list" where
  "removeTruck tid [] = []"
| "removeTruck tid (t # ts) = (if tk_id t = tid then ts else t # removeTruck tid ts)"

record PlanState =
  assignments :: "TruckAssignment list"
  availableTrucks :: "TruckData list"
  remainingHelpers :: int

definition assignOrder :: "PlanState \<Rightarrow> PlanOrder \<Rightarrow> PlanState" where
  "assignOrder st ord =
     (let helpersNeeded = helperCount (po_helpersRequired ord)
      in if helpersNeeded > remainingHelpers st \<and> po_helpersRequired ord \<noteq> HNone then st
         else (case findAssignment (assignments st) ord 0 of
                 Some k \<Rightarrow>
                   (let a = assignments st ! k
                    in st\<lparr>assignments := (assignments st)
                            [k := a\<lparr>ta_orders := ta_orders a @ [ord],
                                    ta_totalWeight := ta_totalWeight a + po_totalWeight ord,
                                    ta_totalVolume := ta_totalVolume a + po_totalVolume ord,
                                    ta_helpersNeeded := max (ta_helpersNeeded a) helpersNeeded\<rparr>]\<rparr>)
               | None \<Rightarrow>
                   (case find (\<lambda>t. po_totalWeight ord \<le> tk_maxWeight t
                                   \<and> po_totalVolume ord \<le> tk_volume t) (availableTrucks st) of
                      None \<Rightarrow> st
                    | Some bestTruck \<Rightarrow>
                        \<lparr>assignments = assignments st @
                           [\<lparr>ta_truck = bestTruck, ta_orders = [ord],
                             ta_totalWeight = po_totalWeight ord,
                             ta_totalVolume = po_totalVolume ord,
                             ta_helpersNeeded = helpersNeeded\<rparr>],
                         availableTrucks = removeTruck (tk_id bestTruck) (availableTrucks st),
                         remainingHelpers = remainingHelpers st - helpersNeeded\<rparr>)))"

definition assignZone :: "PlanOrder list \<Rightarrow> PlanState \<Rightarrow> string \<Rightarrow> PlanState" where
  "assignZone os st z =
     foldl assignOrder st
       (sort_key (\<lambda>ord. - po_totalWeight ord) (filter (\<lambda>ord. zoneOrCentral ord = z) os))"

definition assignOrdersToTrucks ::
  "PlanOrder list \<Rightarrow> TruckData list \<Rightarrow> int \<Rightarrow> TruckAssignment list" where
  "assignOrdersToTrucks os trucksData availableHelpers =
     assignments
       (foldl (assignZone os)
          \<lparr>assignments = [], availableTrucks = sort_key (\<lambda>t. - tk_volume t) trucksData,
           remainingHelpers = availableHelpers\<rparr>
          zoneDistances)"

section \<open>Predicates of the verification\<close>

text \<open>A trip's accumulators agree with its loaded orders and respect its capacity.\<close>

definition trip_ok :: "TruckTrip \<Rightarrow> bool" where
  "trip_ok t \<longleftrightarrow>
     currentVolume t = sum_list (map totalVolume (loadedOrders t))
     \<and> currentWeight t = sum_list (map totalWeight (loadedOrders t))
     \<and> currentVolume t \<le> maxVolume t
     \<and> currentWeight t \<le> maxWeight t"

text \<open>A truck as the truck schema validates it: capacity not negative.\<close>

definition truck_ok :: "TruckData \<Rightarrow> bool" where
  "truck_ok tk \<longleftrightarrow> 0 \<le> tk_volume tk \<and> 0 \<le> tk_maxWeight tk"

definition fleet_ok :: "TruckWithTrips list \<Rightarrow> bool" where
  "fleet_ok tw \<longleftrightarrow> (\<forall>t \<in> set tw. truck_ok (truck t) \<and> (\<forall>trip \<in> set (trips t). trip_ok trip))"

definition fleet_nonempty :: "TruckWithTrips list \<Rightarrow> bool" where
  "fleet_nonempty tw \<longleftrightarrow> (\<forall>t \<in> set tw. trips t \<noteq> [])"

text \<open>Every order loaded on some trip of some truck, with multiplicity.\<close>

definition truckLoaded :: "TruckWithTrips \<Rightarrow> OrderData list" where
  "truckLoaded t = concat (map loadedOrders (trips t))"

definition allLoaded :: "TruckWithTrips list \<Rightarrow> OrderData list" where
  "allLoaded tw = concat (map truckLoaded tw)"

text \<open>One or more packing steps from fleet \<open>tw\<close> to fleet \<open>tw'\<close>, loading the orders \<open>M\<close>.\<close>

definition fleet_step ::
  "TruckWithTrips list \<Rightarrow> TruckWithTrips list \<Rightarrow> OrderData multiset \<Rightarrow> bool" where
  "fleet_step tw tw' M \<longleftrightarrow>
     length tw' = length tw \<and> fleet_nonempty tw'
     \<and> (fleet_ok tw \<longrightarrow> fleet_ok tw')
     \<and> mset (allLoaded tw') = mset (allLoaded tw) + M"

text \<open>
  The words of the packing rule, to compare the scan of \<open>packItems\<close> with: an item of rotated
  length \<open>rl\<close>, rotated width \<open>rw\<close> and height \<open>h\<close> fits a free box; a free box ranks no higher
  than another by the tuple (z, then y, then x).
\<close>

definition fitsSpace :: "real \<Rightarrow> real \<Rightarrow> real \<Rightarrow> Space \<Rightarrow> bool" where
  "fitsSpace rl rw h s \<longleftrightarrow> rl \<le> sp_w s \<and> rw \<le> sp_d s \<and> h \<le> sp_h s"

definition blbLe :: "Space \<Rightarrow> Space \<Rightarrow> bool" where
  "blbLe s s' \<longleftrightarrow>
     sp_z s < sp_z s'
     \<or> (sp_z s = sp_z s' \<and> (sp_y s < sp_y s' \<or> (sp_y s = sp_y s' \<and> sp_x s \<le> sp_x s')))"

text \<open>The state of the scan after the boxes \<open>pre\<close>: \<open>best\<close> is a fitting box of \<open>pre\<close> that ranks
  lowest, with its index, or there is none.\<close>

definition scanned :: "real \<Rightarrow> real \<Rightarrow> real \<Rightarrow> Space list \<Rightarrow> (Space \<times> nat) option \<Rightarrow> bool" where
  "scanned rl rw h pre best \<longleftrightarrow>
     (case best of
        None \<Rightarrow> \<forall>s \<in> set pre. \<not> fitsSpace rl rw h s
      | Some (b, bi) \<Rightarrow>
          bi < length pre \<and> pre ! bi = b \<and> fitsSpace rl rw h b
          \<and> (\<forall>s \<in> set pre. fitsSpace rl rw h s \<longrightarrow> blbLe b s))"

text \<open>The invariant of the packing loop: the running weight is the weight of the packed
  items and respects the limit.\<close>

definition pack_inv :: "Bin \<Rightarrow> PackState \<Rightarrow> bool" where
  "pack_inv bin st \<longleftrightarrow>
     ps_totalWeight st = sum_list (map item_weight (ps_packedItems st))
     \<and> (0 \<le> bin_maxWeight bin \<longrightarrow> ps_totalWeight st \<le> bin_maxWeight bin)"

text \<open>The state of the packing loop of \<open>packItems\<close> after the last item.\<close>

definition packState :: "Item list \<Rightarrow> Bin \<Rightarrow> PackState" where
  "packState its bin =
     foldl (packStep bin) (initPackState bin) (sort_key (\<lambda>i. - item_volume i) its)"

section \<open>Concrete inputs\<close>

text \<open>A truck of one cubic metre carrying 100 kg, and a second one like it.\<close>

definition tkSmall :: TruckData where
  "tkSmall = \<lparr>tk_id = 1, tk_width = 100, tk_depth = 100, tk_height = 100,
              tk_maxWeight = 100, tk_volume = 1000000\<rparr>"

definition tkSecond :: TruckData where
  "tkSecond = \<lparr>tk_id = 2, tk_width = 100, tk_depth = 100, tk_height = 100,
               tk_maxWeight = 100, tk_volume = 1000000\<rparr>"

text \<open>An order of one 50 cm cube of 5 kg for the West zone, and an order larger than the
  whole truck.\<close>

definition ordFit :: OrderData where
  "ordFit = \<lparr>o_id = 1, zone = ''West'', sector = ''60'', helpersRequired = HNone,
             totalWeight = 5, totalVolume = 125000, maxLength = 50, maxWidth = 50,
             maxHeight = 50, needsTwoPeople = False,
             items = [\<lparr>it_id = 11, it_orderId = 1, it_quantity = 1, it_length = 50,
                       it_width = 50, it_height = 50, it_weight = 5\<rparr>]\<rparr>"

definition ordBig :: OrderData where
  "ordBig = \<lparr>o_id = 2, zone = ''West'', sector = ''61'', helpersRequired = HNone,
             totalWeight = 5, totalVolume = 2000000, maxLength = 50, maxWidth = 50,
             maxHeight = 50, needsTwoPeople = False, items = []\<rparr>"

text \<open>An order row asking for two helpers, with one line of two pieces of 10 kg.\<close>

definition rowTwoHelpers :: OrderRow where
  "rowTwoHelpers = \<lparr>or_id = 3, or_zipcode = ''608521'', or_deliveryZone = Some ''West'',
                    or_helpersRequired = HTwo\<rparr>"

definition rowsTwoHelpers :: "ItemRow list" where
  "rowsTwoHelpers = [\<lparr>ir_id = 31, ir_orderId = 3, ir_quantity = 2, ir_length = Some 40,
                      ir_width = Some 40, ir_height = Some 40, ir_weight = Some 10\<rparr>]"

text \<open>Containers and items of the packing examples.\<close>

definition binWeight25 :: Bin where
  "binWeight25 = \<lparr>bin_width = 200, bin_depth = 400, bin_height = 200, bin_maxWeight = 25\<rparr>"

definition binLarge :: Bin where
  "binLarge = \<lparr>bin_width = 200, bin_depth = 400, bin_height = 200, bin_maxWeight = 1000\<rparr>"

definition bin100 :: Bin where
  "bin100 = \<lparr>bin_width = 100, bin_depth = 100, bin_height = 100, bin_maxWeight = 1000\<rparr>"

definition cube50 :: "nat \<Rightarrow> Item" where
  "cube50 n = \<lparr>item_id = n, item_length = 50, item_width = 50, item_height = 50,
               item_weight = 10, item_volume = 125000\<rparr>"

definition itemLong150 :: Item where
  "itemLong150 = \<lparr>item_id = 1, item_length = 150, item_width = 50, item_height = 50,
                  item_weight = 10, item_volume = 375000\<rparr>"

definition itemFlat :: Item where
  "itemFlat = \<lparr>item_id = 1, item_length = 100, item_width = 100, item_height = 50,
               item_weight = 10, item_volume = 500000\<rparr>"

text \<open>An item that fits the 100 cm container only when turned by 90 degrees.\<close>

definition itemTurn :: Item where
  "itemTurn = \<lparr>item_id = 2, item_length = 60, item_width = 120, item_height = 50,
               item_weight = 10, item_volume = 360000\<rparr>"

definition bin100x150 :: Bin where
  "bin100x150 = \<lparr>bin_width = 150, bin_depth = 100, bin_height = 100, bin_maxWeight = 1000\<rparr>"

text \<open>A second order of three pieces, a trip carrying both orders, and its route: the small
  order is the first stop.\<close>

definition ordThree :: OrderData where
  "ordThree = \<lparr>o_id = 4, zone = ''West'', sector = ''62'', helpersRequired = HNone,
               totalWeight = 15, totalVolume = 24000, maxLength = 20, maxWidth = 20,
               maxHeight = 20, needsTwoPeople = False,
               items = [\<lparr>it_id = 41, it_orderId = 4, it_quantity = 3, it_length = 20,
                         it_width = 20, it_height = 20, it_weight = 5\<rparr>]\<rparr>"

definition tripOne :: TruckTrip where
  "tripOne = loadOrderIntoTrip (newTrip 1 tkSmall) ordFit"

definition routeOne :: "RouteStop list" where
  "routeOne = [\<lparr>rs_orderId = 1, rs_sequence = 1\<rparr>]"

definition tripTwo :: TruckTrip where
  "tripTwo = loadOrderIntoTrip (loadOrderIntoTrip (newTrip 1 tkSmall) ordFit) ordThree"

definition routeTwo :: "RouteStop list" where
  "routeTwo = [\<lparr>rs_orderId = 1, rs_sequence = 1\<rparr>, \<lparr>rs_orderId = 4, rs_sequence = 2\<rparr>]"

text \<open>Three orders of the West zone for the single-trip planner: the first needs no helper,
  the other two need one helper each; the first two fill one small truck up to 90 kg.\<close>

definition poA :: PlanOrder where
  "poA = \<lparr>po_id = 1, po_zone = Some ''West'', po_helpersRequired = HNone,
          po_totalWeight = 60, po_totalVolume = 60\<rparr>"

definition poB :: PlanOrder where
  "poB = \<lparr>po_id = 2, po_zone = Some ''West'', po_helpersRequired = HOne,
          po_totalWeight = 30, po_totalVolume = 30\<rparr>"

definition poC :: PlanOrder where
  "poC = \<lparr>po_id = 3, po_zone = Some ''West'', po_helpersRequired = HOne,
          po_totalWeight = 20, po_totalVolume = 20\<rparr>"

section \<open>Lemmas on the trip helpers\<close>

lemma foldl_add_sum_list:
  fixes a :: "'b::comm_monoid_add"
  shows "foldl (\<lambda>s x. s + f x) a xs = a + sum_list (map f xs)"
  by (induction xs arbitrary: a) (simp_all add: add.assoc)

lemma canFit_bounds:
  "canFitInTrip trip ord \<Longrightarrow>
     currentVolume trip + totalVolume ord \<le> maxVolume trip
     \<and> currentWeight trip + totalWeight ord \<le> maxWeight trip"
  by (simp add: canFitInTrip_def split: if_splits)

lemma load_trip_ok:
  "trip_ok trip \<Longrightarrow> canFitInTrip trip ord \<Longrightarrow> trip_ok (loadOrderIntoTrip trip ord)"
  using canFit_bounds [of trip ord] by (simp add: trip_ok_def loadOrderIntoTrip_def)

lemma newTrip_ok: "truck_ok tk \<Longrightarrow> trip_ok (newTrip n tk)"
  by (simp add: trip_ok_def truck_ok_def newTrip_def)

lemma loadedOrders_load [simp]:
  "loadedOrders (loadOrderIntoTrip trip ord) = loadedOrders trip @ [ord]"
  by (simp add: loadOrderIntoTrip_def)

lemma loadedOrders_newTrip [simp]: "loadedOrders (newTrip n tk) = []"
  by (simp add: newTrip_def)

section \<open>Lemmas on the fleet updates\<close>

lemma mset_concat_map_update:
  "i < length xs \<Longrightarrow>
     mset (concat (map f (xs[i := y]))) + mset (f (xs ! i)) = mset (concat (map f xs)) + mset (f y)"
proof (induction xs arbitrary: i)
  case Nil
  then show ?case by simp
next
  case (Cons x xs)
  show ?case
  proof (cases i)
    case 0
    then show ?thesis by simp
  next
    case (Suc j)
    with Cons.prems have "j < length xs" by simp
    from Cons.IH [OF this] Suc show ?thesis by (simp add: ac_simps)
  qed
qed

lemma truckLoaded_load:
  assumes "trips t \<noteq> []"
  shows "mset (truckLoaded (t\<lparr>trips := butlast (trips t) @ [loadOrderIntoTrip (last (trips t)) ord]\<rparr>))
         = mset (truckLoaded t) + {#ord#}"
proof -
  have eq: "butlast (trips t) @ [last (trips t)] = trips t"
    using assms by simp
  have "truckLoaded t = concat (map loadedOrders (butlast (trips t) @ [last (trips t)]))"
    unfolding truckLoaded_def eq ..
  also have "\<dots> = concat (map loadedOrders (butlast (trips t))) @ loadedOrders (last (trips t))"
    by simp
  finally have "truckLoaded t
      = concat (map loadedOrders (butlast (trips t))) @ loadedOrders (last (trips t))" .
  then show ?thesis by (simp add: truckLoaded_def)
qed

lemma truckLoaded_open:
  "truckLoaded (t\<lparr>trips := trips t @ [newTrip n tk]\<rparr>) = truckLoaded t"
  by (simp add: truckLoaded_def)

lemma length_load [simp]: "length (loadIntoCurrentTrip tw i ord) = length tw"
  by (simp add: loadIntoCurrentTrip_def)

lemma length_open [simp]: "length (openNewTrip tw i) = length tw"
  by (simp add: openNewTrip_def)

lemma set_update_cases:
  "t \<in> set (xs[i := y]) \<Longrightarrow> t = y \<and> i < length xs \<or> t \<in> set xs"
  by (metis in_set_conv_nth length_list_update nth_list_update_eq nth_list_update_neq)

lemma nonempty_load: "fleet_nonempty tw \<Longrightarrow> fleet_nonempty (loadIntoCurrentTrip tw i ord)"
  unfolding fleet_nonempty_def loadIntoCurrentTrip_def
  by (auto dest!: set_update_cases)

lemma nonempty_open: "fleet_nonempty tw \<Longrightarrow> fleet_nonempty (openNewTrip tw i)"
  unfolding fleet_nonempty_def openNewTrip_def
  by (auto dest!: set_update_cases)

lemma fleet_ok_load:
  assumes ok: "fleet_ok tw" and ne: "fleet_nonempty tw"
    and fit: "canFitInTrip (currentTripOf (tw ! i)) ord"
  shows "fleet_ok (loadIntoCurrentTrip tw i ord)"
  unfolding fleet_ok_def
proof (intro ballI)
  fix t assume "t \<in> set (loadIntoCurrentTrip tw i ord)"
  then consider
    (new) "i < length tw"
      "t = (tw ! i)\<lparr>trips := butlast (trips (tw ! i)) @ [loadOrderIntoTrip (currentTripOf (tw ! i)) ord]\<rparr>"
    | (old) "t \<in> set tw"
    unfolding loadIntoCurrentTrip_def by (auto dest!: set_update_cases)
  then show "truck_ok (truck t) \<and> (\<forall>trip \<in> set (trips t). trip_ok trip)"
  proof cases
    case new
    then have mem: "tw ! i \<in> set tw" by simp
    with ne have "trips (tw ! i) \<noteq> []" by (simp add: fleet_nonempty_def)
    then have "last (trips (tw ! i)) \<in> set (trips (tw ! i))" by simp
    with ok mem have "trip_ok (currentTripOf (tw ! i))"
      by (simp add: fleet_ok_def currentTripOf_def)
    then have "trip_ok (loadOrderIntoTrip (currentTripOf (tw ! i)) ord)"
      using fit by (rule load_trip_ok)
    moreover have "\<forall>trip \<in> set (butlast (trips (tw ! i))). trip_ok trip"
      using ok mem by (auto simp: fleet_ok_def dest: in_set_butlastD)
    moreover have "truck_ok (truck (tw ! i))"
      using ok mem by (simp add: fleet_ok_def)
    ultimately show ?thesis using new by auto
  next
    case old
    with ok show ?thesis by (simp add: fleet_ok_def)
  qed
qed

lemma fleet_ok_open:
  assumes ok: "fleet_ok tw"
  shows "fleet_ok (openNewTrip tw i)"
  unfolding fleet_ok_def
proof (intro ballI)
  fix t assume "t \<in> set (openNewTrip tw i)"
  then consider
    (new) "i < length tw"
      "t = (tw ! i)\<lparr>trips := trips (tw ! i)
              @ [newTrip (length (trips (tw ! i)) + 1) (truck (tw ! i))]\<rparr>"
    | (old) "t \<in> set tw"
    unfolding openNewTrip_def by (auto dest!: set_update_cases)
  then show "truck_ok (truck t) \<and> (\<forall>trip \<in> set (trips t). trip_ok trip)"
  proof cases
    case new
    then have mem: "tw ! i \<in> set tw" by simp
    with ok have "truck_ok (truck (tw ! i))" and "\<forall>trip \<in> set (trips (tw ! i)). trip_ok trip"
      by (simp_all add: fleet_ok_def)
    then show ?thesis using new by (auto simp: newTrip_ok)
  next
    case old
    with ok show ?thesis by (simp add: fleet_ok_def)
  qed
qed

lemma allLoaded_load:
  assumes "i < length tw" and "fleet_nonempty tw"
  shows "mset (allLoaded (loadIntoCurrentTrip tw i ord)) = mset (allLoaded tw) + {#ord#}"
proof -
  from assms have ne: "trips (tw ! i) \<noteq> []" by (simp add: fleet_nonempty_def)
  let ?t' = "(tw ! i)\<lparr>trips := butlast (trips (tw ! i))
                                  @ [loadOrderIntoTrip (last (trips (tw ! i))) ord]\<rparr>"
  have "mset (concat (map truckLoaded (tw[i := ?t']))) + mset (truckLoaded (tw ! i))
        = mset (concat (map truckLoaded tw)) + mset (truckLoaded ?t')"
    using assms(1) by (rule mset_concat_map_update)
  also have "mset (truckLoaded ?t') = mset (truckLoaded (tw ! i)) + {#ord#}"
    using ne by (rule truckLoaded_load)
  finally show ?thesis
    by (simp add: allLoaded_def loadIntoCurrentTrip_def currentTripOf_def)
qed

lemma allLoaded_open: "mset (allLoaded (openNewTrip tw i)) = mset (allLoaded tw)"
proof (cases "i < length tw")
  case True
  let ?t' = "(tw ! i)\<lparr>trips := trips (tw ! i)
                 @ [newTrip (length (trips (tw ! i)) + 1) (truck (tw ! i))]\<rparr>"
  have "mset (concat (map truckLoaded (tw[i := ?t']))) + mset (truckLoaded (tw ! i))
        = mset (concat (map truckLoaded tw)) + mset (truckLoaded ?t')"
    using True by (rule mset_concat_map_update)
  then show ?thesis
    by (simp add: allLoaded_def openNewTrip_def truckLoaded_open)
next
  case False
  then have "length tw \<le> i" by simp
  then show ?thesis by (simp add: openNewTrip_def list_update_beyond)
qed

section \<open>The packing loops preserve the fleet invariants\<close>

lemma fleet_step_refl: "fleet_nonempty tw \<Longrightarrow> fleet_step tw tw {#}"
  by (simp add: fleet_step_def)

lemma fleet_step_trans:
  "fleet_step a b M \<Longrightarrow> fleet_step b c N \<Longrightarrow> fleet_step a c (M + N)"
  by (simp add: fleet_step_def)

lemma fleet_step_load:
  "i < length tw \<Longrightarrow> fleet_nonempty tw \<Longrightarrow> canFitInTrip (currentTripOf (tw ! i)) ord
     \<Longrightarrow> fleet_step tw (loadIntoCurrentTrip tw i ord) {#ord#}"
  by (simp add: fleet_step_def nonempty_load fleet_ok_load allLoaded_load)

lemma fleet_step_open: "fleet_nonempty tw \<Longrightarrow> fleet_step tw (openNewTrip tw i) {#}"
  by (simp add: fleet_step_def nonempty_open fleet_ok_open allLoaded_open)

lemma findBestTruck_Some:
  "findBestTruck tw ord is best = Some (b, r) \<Longrightarrow>
     best = Some (b, r) \<or> (b \<in> set is \<and> canFitInTrip (currentTripOf (tw ! b)) ord)"
proof (induction "is" arbitrary: best)
  case Nil
  then show ?case by simp
next
  case (Cons i "is")
  show ?case
  proof (cases "canFitInTrip (currentTripOf (tw ! i)) ord")
    case False
    with Cons.prems have "findBestTruck tw ord is best = Some (b, r)" by simp
    from Cons.IH [OF this] show ?thesis by auto
  next
    case True
    let ?rem = "maxVolume (currentTripOf (tw ! i)) - currentVolume (currentTripOf (tw ! i))
                 - totalVolume ord"
    from Cons.prems True consider
      (upd) "findBestTruck tw ord is (Some (i, ?rem)) = Some (b, r)"
      | (keep) "findBestTruck tw ord is best = Some (b, r)"
      by (auto simp: Let_def split: option.splits if_splits)
    then show ?thesis
    proof cases
      case upd
      from Cons.IH [OF this] True show ?thesis by auto
    next
      case keep
      from Cons.IH [OF this] show ?thesis by auto
    qed
  qed
qed

lemma tryAnyTruck_Some:
  "tryAnyTruck tw ord is = Some tw' \<Longrightarrow>
     \<exists>i \<in> set is. canFitInTrip (currentTripOf (tw ! i)) ord \<and> tw' = loadIntoCurrentTrip tw i ord"
  by (induction "is") (auto split: if_splits)

lemma packOrder_step:
  assumes idx: "\<forall>i \<in> set as. i < length tw" and ne: "fleet_nonempty tw"
    and res: "packOrder as (tw, u) ord = (tw', u')"
  shows "\<exists>M. fleet_step tw tw' M \<and> mset u' + M = mset u + {#ord#}"
proof (cases "findBestTruck tw ord as None")
  case (Some br)
  obtain b r where br: "br = (b, r)" by (cases br)
  from Some br findBestTruck_Some [of tw ord as None b r]
  have "b \<in> set as" and fit: "canFitInTrip (currentTripOf (tw ! b)) ord" by auto
  with idx have "b < length tw" by simp
  from fleet_step_load [OF this ne fit] res Some br show ?thesis
    by (auto simp: packOrder_def)
next
  case None
  show ?thesis
  proof (cases "tryAnyTruck tw ord [0..<length tw]")
    case (Some tw'')
    from tryAnyTruck_Some [OF this] obtain i where "i < length tw"
      and fit: "canFitInTrip (currentTripOf (tw ! i)) ord"
      and eq: "tw'' = loadIntoCurrentTrip tw i ord" by auto
    from fleet_step_load [OF this(1) ne fit] res None Some eq show ?thesis
      by (auto simp: packOrder_def)
  next
    case None2: None
    from res None None2 have "tw' = tw" and "u' = u @ [ord]"
      by (simp_all add: packOrder_def)
    with fleet_step_refl [OF ne] show ?thesis by auto
  qed
qed

lemma foldl_packOrder_step:
  assumes "\<forall>i \<in> set as. i < length tw" and "fleet_nonempty tw"
    and "foldl (packOrder as) (tw, u) os = (tw', u')"
  shows "\<exists>M. fleet_step tw tw' M \<and> mset u' + M = mset u + mset os"
  using assms
proof (induction os arbitrary: tw u)
  case Nil
  with fleet_step_refl [of tw] show ?case by auto
next
  case (Cons ord os)
  obtain tw1 u1 where s1: "packOrder as (tw, u) ord = (tw1, u1)"
    by (cases "packOrder as (tw, u) ord")
  from packOrder_step [OF Cons.prems(1,2) s1] obtain M1
    where st1: "fleet_step tw tw1 M1" and m1: "mset u1 + M1 = mset u + {#ord#}" by blast
  from st1 have len: "length tw1 = length tw" and ne1: "fleet_nonempty tw1"
    by (simp_all add: fleet_step_def)
  from Cons.prems(3) s1 have "foldl (packOrder as) (tw1, u1) os = (tw', u')" by simp
  from Cons.IH [OF _ ne1 this] Cons.prems(1) len obtain M2
    where st2: "fleet_step tw1 tw' M2" and m2: "mset u' + M2 = mset u1 + mset os" by auto
  from fleet_step_trans [OF st1 st2] have "fleet_step tw tw' (M1 + M2)" .
  moreover have "mset u' + (M1 + M2) = mset u + mset (ord # os)"
  proof -
    have "mset u' + (M1 + M2) = (mset u' + M2) + M1" by (simp add: ac_simps)
    also have "\<dots> = (mset u1 + M1) + mset os" using m2 by (simp add: ac_simps)
    also have "\<dots> = mset u + {#ord#} + mset os" using m1 by simp
    finally show ?thesis by (simp add: ac_simps)
  qed
  ultimately show ?case by blast
qed

lemma foldl_packZone_step:
  assumes "\<forall>z. \<forall>i \<in> set (m z). i < length tw" and "fleet_nonempty tw"
    and "foldl (packZone zo m) (tw, u) zs = (tw', u')"
  shows "\<exists>M. fleet_step tw tw' M \<and> mset u' + M = mset u + mset (concat (map (zoneOrdersOf zo) zs))"
  using assms
proof (induction zs arbitrary: tw u)
  case Nil
  with fleet_step_refl [of tw] show ?case by auto
next
  case (Cons z zs)
  obtain tw1 u1 where s1: "packZone zo m (tw, u) z = (tw1, u1)"
    by (cases "packZone zo m (tw, u) z")
  then have "foldl (packOrder (m z)) (tw, u) (zoneOrdersOf zo z) = (tw1, u1)"
    by (simp add: packZone_def)
  from foldl_packOrder_step [OF _ Cons.prems(2) this] Cons.prems(1) obtain M1
    where st1: "fleet_step tw tw1 M1" and m1: "mset u1 + M1 = mset u + mset (zoneOrdersOf zo z)"
    by blast
  from st1 have len: "length tw1 = length tw" and ne1: "fleet_nonempty tw1"
    by (simp_all add: fleet_step_def)
  from Cons.prems(3) s1 have "foldl (packZone zo m) (tw1, u1) zs = (tw', u')" by simp
  from Cons.IH [OF _ ne1 this] Cons.prems(1) len obtain M2
    where st2: "fleet_step tw1 tw' M2"
      and m2: "mset u' + M2 = mset u1 + mset (concat (map (zoneOrdersOf zo) zs))" by auto
  from fleet_step_trans [OF st1 st2] have "fleet_step tw tw' (M1 + M2)" .
  moreover have "mset u' + (M1 + M2) = mset u + mset (concat (map (zoneOrdersOf zo) (z # zs)))"
  proof -
    have "mset u' + (M1 + M2) = (mset u' + M2) + M1" by (simp add: ac_simps)
    also have "\<dots> = (mset u1 + M1) + mset (concat (map (zoneOrdersOf zo) zs))"
      using m2 by (simp add: ac_simps)
    also have "\<dots> = mset u + mset (zoneOrdersOf zo z) + mset (concat (map (zoneOrdersOf zo) zs))"
      using m1 by simp
    finally show ?thesis by (simp add: ac_simps)
  qed
  ultimately show ?case by blast
qed

lemma multiTripLoop_step:
  assumes "\<forall>i \<in> set is. i < length tw" and "fleet_nonempty tw"
    and "multiTripLoop ord is tw = (tw', packed)"
  shows "fleet_step tw tw' (if packed then {#ord#} else {#})"
  using assms
proof (induction "is" arbitrary: tw)
  case Nil
  with fleet_step_refl [of tw] show ?case by simp
next
  case (Cons i "is")
  let ?tw1 = "if \<not> canFitInTrip (currentTripOf (tw ! i)) ord then openNewTrip tw i else tw"
  have st1: "fleet_step tw ?tw1 {#}"
    using Cons.prems(2) by (simp add: fleet_step_open fleet_step_refl)
  then have len: "length ?tw1 = length tw" and ne1: "fleet_nonempty ?tw1"
    by (simp_all only: fleet_step_def)
  from Cons.prems(1) len have i: "i < length ?tw1" by simp
  show ?case
  proof (cases "canFitInTrip (currentTripOf (?tw1 ! i)) ord")
    case True
    with Cons.prems(3) have "tw' = loadIntoCurrentTrip ?tw1 i ord" and "packed"
      by (simp_all add: Let_def)
    with fleet_step_trans [OF st1 fleet_step_load [OF i ne1 True]] show ?thesis by simp
  next
    case False
    with Cons.prems(3) have "multiTripLoop ord is ?tw1 = (tw', packed)"
      by (simp add: Let_def)
    from Cons.IH [OF _ ne1 this] Cons.prems(1) len
    have "fleet_step ?tw1 tw' (if packed then {#ord#} else {#})" by simp
    with fleet_step_trans [OF st1 this] show ?thesis by simp
  qed
qed

lemma packRemaining_step:
  assumes ne: "fleet_nonempty tw" and res: "packRemaining (tw, u) ord = (tw', u')"
  shows "\<exists>M. fleet_step tw tw' M \<and> mset u' + M = mset u + {#ord#}"
proof -
  let ?is = "sort_key (\<lambda>i. - tk_volume (truck (tw ! i))) [0..<length tw]"
  obtain tw1 packed where s: "multiTripLoop ord ?is tw = (tw1, packed)"
    by (cases "multiTripLoop ord ?is tw")
  have "\<forall>i \<in> set ?is. i < length tw" by simp
  from multiTripLoop_step [OF this ne s]
  have st: "fleet_step tw tw1 (if packed then {#ord#} else {#})" .
  from res s have "tw' = tw1" and "u' = (if packed then u else u @ [ord])"
    by (simp_all add: packRemaining_def Let_def split: if_splits)
  with st show ?thesis by (cases packed) auto
qed

lemma foldl_packRemaining_step:
  assumes "fleet_nonempty tw" and "foldl packRemaining (tw, u) os = (tw', u')"
  shows "\<exists>M. fleet_step tw tw' M \<and> mset u' + M = mset u + mset os"
  using assms
proof (induction os arbitrary: tw u)
  case Nil
  with fleet_step_refl [of tw] show ?case by auto
next
  case (Cons ord os)
  obtain tw1 u1 where s1: "packRemaining (tw, u) ord = (tw1, u1)"
    by (cases "packRemaining (tw, u) ord")
  from packRemaining_step [OF Cons.prems(1) s1] obtain M1
    where st1: "fleet_step tw tw1 M1" and m1: "mset u1 + M1 = mset u + {#ord#}" by blast
  from st1 have ne1: "fleet_nonempty tw1" by (simp add: fleet_step_def)
  from Cons.prems(2) s1 have "foldl packRemaining (tw1, u1) os = (tw', u')" by simp
  from Cons.IH [OF ne1 this] obtain M2
    where st2: "fleet_step tw1 tw' M2" and m2: "mset u' + M2 = mset u1 + mset os" by auto
  from fleet_step_trans [OF st1 st2] have "fleet_step tw tw' (M1 + M2)" .
  moreover have "mset u' + (M1 + M2) = mset u + mset (ord # os)"
  proof -
    have "mset u' + (M1 + M2) = (mset u' + M2) + M1" by (simp add: ac_simps)
    also have "\<dots> = (mset u1 + M1) + mset os" using m2 by (simp add: ac_simps)
    also have "\<dots> = mset u + {#ord#} + mset os" using m1 by simp
    finally show ?thesis by (simp add: ac_simps)
  qed
  ultimately show ?case by blast
qed

section \<open>The zone-truck map holds valid references\<close>

lemma zoneTruckLoop_idx:
  "\<forall>i \<in> set is. i < n \<Longrightarrow> \<forall>i \<in> set sel. i < n
     \<Longrightarrow> \<forall>i \<in> set (fst (zoneTruckLoop tw need is av sel used)). i < n"
proof (induction "is" arbitrary: av sel used)
  case Nil
  then show ?case by simp
next
  case (Cons a "is")
  from Cons.prems have r: "\<forall>i \<in> set is. i < n" and s: "\<forall>i \<in> set (sel @ [a]). i < n"
    by simp_all
  show ?case
    using Cons.IH [OF r Cons.prems(2)] Cons.IH [OF r s] Cons.prems(2) by simp
qed

lemma assignTrucksToZones_idx:
  "\<forall>z. \<forall>i \<in> set (m z). i < length tw
     \<Longrightarrow> \<forall>z. \<forall>i \<in> set (fst (assignTrucksToZones tw zd zs (m, used)) z). i < length tw"
proof (induction zs arbitrary: m used)
  case Nil
  then show ?case by simp
next
  case (Cons z zs)
  obtain sel used' where l: "zoneTruckLoop tw (demandVolume zd z) [0..<length tw] 0 [] used = (sel, used')"
    by (cases "zoneTruckLoop tw (demandVolume zd z) [0..<length tw] 0 [] used")
  have "\<forall>i \<in> set (fst (zoneTruckLoop tw (demandVolume zd z) [0..<length tw] 0 [] used)). i < length tw"
    by (rule zoneTruckLoop_idx) simp_all
  with l have "\<forall>i \<in> set sel. i < length tw" by simp
  with Cons.prems have "\<forall>y. \<forall>i \<in> set ((m(z := sel)) y). i < length tw" by simp
  from Cons.IH [OF this] l show ?case by (simp del: fun_upd_apply)
qed

lemma assignRemainingTrucks_idx:
  "\<forall>i \<in> set is. i < n \<Longrightarrow> \<forall>z. \<forall>i \<in> set (m z). i < n
     \<Longrightarrow> \<forall>z. \<forall>i \<in> set (fst (assignRemainingTrucks tw bz is (m, used)) z). i < n"
proof (induction "is" arbitrary: m used)
  case Nil
  then show ?case by simp
next
  case (Cons i "is")
  from Cons.prems have a: "\<forall>i \<in> set is. i < n" and i: "i < n" by simp_all
  from Cons.prems(2) i have b: "\<forall>z. \<forall>j \<in> set ((m(bz := m bz @ [i])) z). j < n" by simp
  show ?case
    using Cons.IH [OF a b] Cons.IH [OF a Cons.prems(2)] by (simp del: fun_upd_apply)
qed

lemma buildZoneTruckMap_idx: "\<forall>z. \<forall>i \<in> set (buildZoneTruckMap tw zd zs z). i < length tw"
proof -
  obtain m used where a: "assignTrucksToZones tw zd zs (\<lambda>z. [], {}) = (m, used)"
    by (cases "assignTrucksToZones tw zd zs (\<lambda>z. [], {})")
  have "\<forall>z. \<forall>i \<in> set (fst (assignTrucksToZones tw zd zs (\<lambda>z. [], {})) z). i < length tw"
    by (rule assignTrucksToZones_idx) simp
  with a have m: "\<forall>z. \<forall>i \<in> set (m z). i < length tw" by simp
  have "\<forall>z. \<forall>i \<in> set (fst (assignRemainingTrucks tw (bestZoneOf zs) [0..<length tw] (m, used)) z).
          i < length tw"
    by (rule assignRemainingTrucks_idx [OF _ m]) simp
  with a show ?thesis by (simp add: buildZoneTruckMap_def)
qed

section \<open>Grouping by zone loses and duplicates no order\<close>

lemma pushZoneOrder_keys:
  "set (map fst (pushZoneOrder zo ord)) = insert (zone ord) (set (map fst zo))"
  by (induction zo ord rule: pushZoneOrder.induct) auto

lemma pushZoneOrder_distinct:
  "distinct (map fst zo) \<Longrightarrow> distinct (map fst (pushZoneOrder zo ord))"
proof (induction zo ord rule: pushZoneOrder.induct)
  case (1 ord)
  then show ?case by simp
next
  case (2 z os rest ord)
  show ?case
  proof (cases "z = zone ord")
    case True
    with "2.prems" show ?thesis by simp
  next
    case False
    from "2.prems" have d: "distinct (map fst rest)" and z: "z \<notin> set (map fst rest)" by simp_all
    from "2.IH" [OF False d] have "distinct (map fst (pushZoneOrder rest ord))" .
    moreover from z False have "z \<notin> set (map fst (pushZoneOrder rest ord))"
      unfolding pushZoneOrder_keys by simp
    ultimately show ?thesis using False by simp
  qed
qed

lemma pushZoneOrder_mset:
  "mset (concat (map snd (pushZoneOrder zo ord))) = mset (concat (map snd zo)) + {#ord#}"
  by (induction zo ord rule: pushZoneOrder.induct) simp_all

lemma foldl_pushZoneOrder:
  "distinct (map fst zo) \<Longrightarrow>
     distinct (map fst (foldl pushZoneOrder zo os))
     \<and> mset (concat (map snd (foldl pushZoneOrder zo os))) = mset (concat (map snd zo)) + mset os"
proof (induction os arbitrary: zo)
  case Nil
  then show ?case by simp
next
  case (Cons ord os)
  from Cons.IH [OF pushZoneOrder_distinct [OF Cons.prems], of ord]
  show ?case by (simp add: pushZoneOrder_mset)
qed

lemma groupByZone_props:
  "distinct (map fst (groupByZone os)) \<and> mset (concat (map snd (groupByZone os))) = mset os"
proof -
  let ?g = "\<lambda>(z, os). (z, sortByVolumeDesc os)"
  have k: "map fst (map ?g zo) = map fst zo" for zo :: "(string \<times> OrderData list) list"
    by (induction zo) auto
  have s: "mset (concat (map snd (map ?g zo))) = mset (concat (map snd zo))"
    for zo :: "(string \<times> OrderData list) list"
    by (induction zo) (auto simp: sortByVolumeDesc_def)
  from foldl_pushZoneOrder [of "[]" os]
  have "distinct (map fst (foldl pushZoneOrder [] os))"
    and "mset (concat (map snd (foldl pushZoneOrder [] os))) = mset os" by simp_all
  then show ?thesis
    unfolding groupByZone_def k s by simp
qed

lemma sortedZones_perm: "mset (sortedZonesOf (zoneDemandsOf zo)) = mset (map fst zo)"
proof -
  have "map fst (zoneDemandsOf zo) = map fst zo"
    unfolding zoneDemandsOf_def by (induction zo) auto
  then have "mset (map fst (zoneDemandsOf zo)) = mset (map fst zo)" by simp
  then show ?thesis by (simp add: sortedZonesOf_def)
qed

lemma zoneOrdersOf_key:
  "distinct (map fst zo) \<Longrightarrow> (z, os) \<in> set zo \<Longrightarrow> zoneOrdersOf zo z = os"
  by (simp add: zoneOrdersOf_def)

lemma orders_of_all_zones:
  assumes d: "distinct (map fst zo)" and p: "mset zs = mset (map fst zo)"
  shows "mset (concat (map (zoneOrdersOf zo) zs)) = mset (concat (map snd zo))"
proof -
  have "mset (concat (map (zoneOrdersOf zo) zs)) = (\<Sum>z \<in># mset zs. mset (zoneOrdersOf zo z))"
    by (induction zs) simp_all
  also have "\<dots> = (\<Sum>z \<in># mset (map fst zo). mset (zoneOrdersOf zo z))"
    using p by simp
  also have "\<dots> = (\<Sum>p \<in># mset zo. mset (zoneOrdersOf zo (fst p)))"
    by (simp add: image_mset.compositionality comp_def)
  also have "\<dots> = (\<Sum>p \<in># mset zo. mset (snd p))"
  proof (rule arg_cong [where f = sum_mset], rule image_mset_cong)
    fix p assume "p \<in># mset zo"
    then have "(fst p, snd p) \<in> set zo" by simp
    from zoneOrdersOf_key [OF d this] show "mset (zoneOrdersOf zo (fst p)) = mset (snd p)" by simp
  qed
  also have "\<dots> = mset (concat (map snd zo))"
    by (induction zo) simp_all
  finally show ?thesis .
qed

section \<open>The whole packing\<close>

lemma initial_fleet:
  "fleet_nonempty (sortTrucks (map initTruck tks))"
  "allLoaded (sortTrucks (map initTruck tks)) = []"
  "\<forall>tk \<in> set tks. truck_ok tk \<Longrightarrow> fleet_ok (sortTrucks (map initTruck tks))"
proof -
  show "fleet_nonempty (sortTrucks (map initTruck tks))"
    by (auto simp: fleet_nonempty_def sortTrucks_def initTruck_def)
  have "\<forall>t \<in> set (sortTrucks (map initTruck tks)). truckLoaded t = []"
    by (auto simp: sortTrucks_def initTruck_def truckLoaded_def)
  then show "allLoaded (sortTrucks (map initTruck tks)) = []"
    by (simp add: allLoaded_def)
  show "fleet_ok (sortTrucks (map initTruck tks))" if "\<forall>tk \<in> set tks. truck_ok tk"
    using that by (auto simp: fleet_ok_def sortTrucks_def initTruck_def newTrip_ok)
qed

lemma packAll_props:
  assumes res: "packAll os tks = (tw, u)"
  shows "fleet_nonempty tw"
    and "mset (allLoaded tw) + mset u = mset os"
    and "\<forall>tk \<in> set tks. truck_ok tk \<Longrightarrow> fleet_ok tw"
proof -
  let ?tw0 = "sortTrucks (map initTruck tks)"
  let ?zo = "groupByZone os"
  let ?zd = "zoneDemandsOf ?zo"
  let ?zs = "sortedZonesOf ?zd"
  let ?m = "buildZoneTruckMap ?tw0 ?zd ?zs"
  obtain tw3 u3 where s3: "foldl (packZone ?zo ?m) (?tw0, []) ?zs = (tw3, u3)"
    by (cases "foldl (packZone ?zo ?m) (?tw0, []) ?zs")
  from foldl_packZone_step [OF buildZoneTruckMap_idx initial_fleet(1) s3] obtain M3
    where st3: "fleet_step ?tw0 tw3 M3"
      and m3: "mset u3 + M3 = mset (concat (map (zoneOrdersOf ?zo) ?zs))" by auto
  from groupByZone_props [of os] sortedZones_perm [of ?zo]
  have "mset (concat (map (zoneOrdersOf ?zo) ?zs)) = mset os"
    by (simp add: orders_of_all_zones)
  with m3 have m3': "mset u3 + M3 = mset os" by simp
  from st3 have ne3: "fleet_nonempty tw3" by (simp add: fleet_step_def)
  from res s3 have s4: "foldl packRemaining (tw3, []) (sortByVolumeDesc u3) = (tw, u)"
    by (simp add: packAll_def Let_def)
  from foldl_packRemaining_step [OF ne3 s4] obtain M4
    where st4: "fleet_step tw3 tw M4" and m4: "mset u + M4 = mset u3"
    by (auto simp: sortByVolumeDesc_def)
  from fleet_step_trans [OF st3 st4] have st: "fleet_step ?tw0 tw (M3 + M4)" .
  then show "fleet_nonempty tw" by (simp add: fleet_step_def)
  from st have "mset (allLoaded tw) = M3 + M4"
    by (simp add: fleet_step_def initial_fleet(2))
  with m3' m4 show "mset (allLoaded tw) + mset u = mset os"
    by (metis add.assoc add.commute)
  show "fleet_ok tw" if "\<forall>tk \<in> set tks. truck_ok tk"
    using st initial_fleet(3) [OF that] by (simp add: fleet_step_def)
qed

section \<open>Claims on the multi-trip optimizer\<close>

lemma trips_computeTotals [simp]: "trips (computeTotals t) = trips t"
  by (simp add: computeTotals_def)

lemma result_fleet:
  "trucksWithTrips (runOptimizationV3 os tks) = map computeTotals (fst (packAll os tks))"
  "unassignedOrders (runOptimizationV3 os tks) = snd (packAll os tks)"
  by (simp_all add: runOptimizationV3_def Let_def split: prod.splits)

text \<open>
  Claim C1.  For every run of \<open>runOptimizationV3\<close> on orders and trucks (the trucks with a
  capacity that is not negative, as the truck schema validates them), every trip of the result
  has \<open>currentVolume \<le> maxVolume\<close> and \<open>currentWeight \<le> maxWeight\<close>, and the two accumulators
  are the sums of \<open>totalVolume\<close> and \<open>totalWeight\<close> over the trip's \<open>loadedOrders\<close>.  An order
  that passes \<open>canFitInTrip\<close>, the check made before every \<open>loadOrderIntoTrip\<close>, leaves both
  bounds true after the load.
\<close>

theorem trip_capacity_invariant:
  assumes "\<forall>tk \<in> set trucksData. 0 \<le> tk_volume tk \<and> 0 \<le> tk_maxWeight tk"
  shows "(\<forall>t \<in> set (trucksWithTrips (runOptimizationV3 ordersData trucksData)).
           \<forall>trip \<in> set (trips t).
             currentVolume trip \<le> maxVolume trip \<and> currentWeight trip \<le> maxWeight trip
             \<and> currentVolume trip = sum_list (map totalVolume (loadedOrders trip))
             \<and> currentWeight trip = sum_list (map totalWeight (loadedOrders trip)))
         \<and> (\<forall>trip ord. canFitInTrip trip ord \<longrightarrow>
               currentVolume (loadOrderIntoTrip trip ord) \<le> maxVolume (loadOrderIntoTrip trip ord)
               \<and> currentWeight (loadOrderIntoTrip trip ord)
                   \<le> maxWeight (loadOrderIntoTrip trip ord))"
proof (intro conjI ballI allI impI)
  obtain tw u where p: "packAll ordersData trucksData = (tw, u)"
    by (cases "packAll ordersData trucksData")
  from assms have "\<forall>tk \<in> set trucksData. truck_ok tk" by (simp add: truck_ok_def)
  from packAll_props(3) [OF p this] have ok: "fleet_ok tw" .
  fix t trip
  assume "t \<in> set (trucksWithTrips (runOptimizationV3 ordersData trucksData))"
    and trip: "trip \<in> set (trips t)"
  then obtain t0 where "t0 \<in> set tw" and "t = computeTotals t0"
    using p by (auto simp: result_fleet)
  with ok trip have "trip_ok trip" by (simp add: fleet_ok_def)
  then show "currentVolume trip \<le> maxVolume trip" "currentWeight trip \<le> maxWeight trip"
    "currentVolume trip = sum_list (map totalVolume (loadedOrders trip))"
    "currentWeight trip = sum_list (map totalWeight (loadedOrders trip))"
    by (simp_all add: trip_ok_def)
next
  fix trip ord assume fit: "canFitInTrip trip ord"
  from canFit_bounds [OF fit]
  show "currentVolume (loadOrderIntoTrip trip ord) \<le> maxVolume (loadOrderIntoTrip trip ord)"
    "currentWeight (loadOrderIntoTrip trip ord) \<le> maxWeight (loadOrderIntoTrip trip ord)"
    by (simp_all add: loadOrderIntoTrip_def)
qed

theorem trip_capacity_invariant_witness:
  "list_all (\<lambda>tk. 0 \<le> tk_volume tk \<and> 0 \<le> tk_maxWeight tk) [tkSmall]
   \<and> list_all (\<lambda>t. list_all (\<lambda>trip.
         currentVolume trip \<le> maxVolume trip \<and> currentWeight trip \<le> maxWeight trip
         \<and> currentVolume trip = sum_list (map totalVolume (loadedOrders trip))
         \<and> currentWeight trip = sum_list (map totalWeight (loadedOrders trip))) (trips t))
       (trucksWithTrips (runOptimizationV3 [ordFit, ordBig] [tkSmall]))
   \<and> map (\<lambda>t. map (\<lambda>trip. (map o_id (loadedOrders trip), currentVolume trip, maxVolume trip))
             (trips t))
       (trucksWithTrips (runOptimizationV3 [ordFit, ordBig] [tkSmall]))
     = [[([1], 125000, 1000000), ([], 0, 1000000)]]"
proof -
  have h: "\<forall>tk \<in> set [tkSmall]. 0 \<le> tk_volume tk \<and> 0 \<le> tk_maxWeight tk"
    by (simp add: tkSmall_def)
  have v: "map (\<lambda>t. map (\<lambda>trip. (map o_id (loadedOrders trip), currentVolume trip, maxVolume trip))
             (trips t))
       (trucksWithTrips (runOptimizationV3 [ordFit, ordBig] [tkSmall]))
     = [[([1], 125000, 1000000), ([], 0, 1000000)]]"
    by code_simp
  from trip_capacity_invariant [OF h, of "[ordFit, ordBig]"] h v
  show ?thesis unfolding list_all_iff by blast
qed

text \<open>
  Claim C5.  The result of \<open>runOptimizationV3\<close> partitions the input orders: the orders loaded
  on the trips of the trucks together with the unassigned orders are, with multiplicity, the
  input orders, so no order is lost or duplicated; the summary counts add up; and every
  unassigned order is reported once, with the reason "No available truck with capacity".
\<close>

theorem orders_partition:
  "mset (concat (map loadedOrders
            (concat (map trips (trucksWithTrips (runOptimizationV3 ordersData trucksData))))))
     + mset (unassignedOrders (runOptimizationV3 ordersData trucksData)) = mset ordersData
   \<and> s_assignedOrders (summary (runOptimizationV3 ordersData trucksData))
       + s_unassignedOrders (summary (runOptimizationV3 ordersData trucksData))
     = s_totalOrders (summary (runOptimizationV3 ordersData trucksData))
   \<and> map ur_id (reportUnassigned (unassignedOrders (runOptimizationV3 ordersData trucksData)))
     = map o_id (unassignedOrders (runOptimizationV3 ordersData trucksData))
   \<and> map ur_reason (reportUnassigned (unassignedOrders (runOptimizationV3 ordersData trucksData)))
     = replicate (length (unassignedOrders (runOptimizationV3 ordersData trucksData)))
         ''No available truck with capacity''"
proof -
  obtain tw u where p: "packAll ordersData trucksData = (tw, u)"
    by (cases "packAll ordersData trucksData")
  let ?R = "runOptimizationV3 ordersData trucksData"
  have tws: "trucksWithTrips ?R = map computeTotals tw" and us: "unassignedOrders ?R = u"
    using p by (simp_all add: result_fleet)
  have loaded: "concat (map loadedOrders (concat (map trips (map computeTotals tw)))) = allLoaded tw"
    by (induction tw) (simp_all add: allLoaded_def truckLoaded_def)
  from packAll_props(2) [OF p] have part: "mset (allLoaded tw) + mset u = mset ordersData" .
  have "totalOrders (computeTotals t) = length (truckLoaded t)" for t
    by (simp add: computeTotals_def truckLoaded_def foldl_add_sum_list length_concat comp_def)
  then have "s_assignedOrders (summary ?R) = length (allLoaded tw)"
    using p by (simp add: runOptimizationV3_def Let_def foldl_add_sum_list allLoaded_def
        length_concat comp_def)
  moreover have "s_unassignedOrders (summary ?R) = length u"
    and "s_totalOrders (summary ?R) = length ordersData"
    using p by (simp_all add: runOptimizationV3_def Let_def)
  moreover from part have "length (allLoaded tw) + length u = length ordersData"
    by (metis size_mset size_union)
  ultimately have counts: "s_assignedOrders (summary ?R) + s_unassignedOrders (summary ?R)
      = s_totalOrders (summary ?R)" by simp
  have rep: "map ur_id (reportUnassigned u) = map o_id u"
    "map ur_reason (reportUnassigned u) = replicate (length u) ''No available truck with capacity''"
    by (simp_all add: reportUnassigned_def comp_def map_replicate_const)
  from part counts rep show ?thesis
    unfolding tws us loaded by simp
qed

section \<open>Claims on the route times\<close>

lemma routeTimeLoop_sum:
  "routeTimeLoop acc ts =
     acc + sum_list (map (\<lambda>t. getTripRouteTime t True) ts)
     + DEPOT_RELOAD_TIME * real (length ts - 1)"
  by (induction acc ts rule: routeTimeLoop.induct) (simp_all add: algebra_simps)

lemma truck_time_formula:
  assumes "ts \<noteq> []"
  shows "getTruckTotalRouteTime ts =
           sum_list (map (\<lambda>t. getTripRouteTime t True) ts)
           + DEPOT_RELOAD_TIME * (real (length ts) - 1)"
proof -
  from assms have "1 \<le> length ts" by (cases ts) simp_all
  then have "real (length ts - 1) = real (length ts) - 1" by simp
  with assms show ?thesis by (simp add: getTruckTotalRouteTime_def routeTimeLoop_sum)
qed

lemma empty_trip_time: "loadedOrders trip = [] \<Longrightarrow> getTripRouteTime trip r = 0"
  by (simp add: getTripRouteTime_def)

lemma result_trips_nonempty:
  "t \<in> set (trucksWithTrips (runOptimizationV3 os tks)) \<Longrightarrow> trips t \<noteq> []"
proof -
  assume a: "t \<in> set (trucksWithTrips (runOptimizationV3 os tks))"
  obtain tw u where p: "packAll os tks = (tw, u)" by (cases "packAll os tks")
  from a p obtain t0 where "t0 \<in> set tw" and "t = computeTotals t0"
    by (auto simp: result_fleet)
  with packAll_props(1) [OF p] show ?thesis by (simp add: fleet_nonempty_def)
qed

lemma result_route_time:
  "t \<in> set (trucksWithTrips (runOptimizationV3 os tks))
     \<Longrightarrow> totalRouteTime t = getTruckTotalRouteTime (trips t)"
  by (auto simp: result_fleet computeTotals_def)

text \<open>
  Claim C6.  A trip with no loaded order has route time 0.  The total route time of a truck
  is the sum over its trips of the trip time with the return leg, plus the depot reload
  time of 30 minutes for each trip but one: \<open>(tripCount - 1)\<close> reload intervals.  This holds
  for every non-empty list of trips, and every truck of a result of \<open>runOptimizationV3\<close>
  has at least one trip and this total.
\<close>

theorem route_time_reload_intervals:
  "(loadedOrders trip = [] \<longrightarrow> getTripRouteTime trip includeReturn = 0)
   \<and> (ts \<noteq> [] \<longrightarrow>
        getTruckTotalRouteTime ts =
          sum_list (map (\<lambda>t. getTripRouteTime t True) ts)
          + DEPOT_RELOAD_TIME * (real (length ts) - 1))
   \<and> (\<forall>t \<in> set (trucksWithTrips (runOptimizationV3 ordersData trucksData)).
        trips t \<noteq> []
        \<and> totalRouteTime t =
            sum_list (map (\<lambda>tr. getTripRouteTime tr True) (trips t))
            + DEPOT_RELOAD_TIME * (real (length (trips t)) - 1))
   \<and> DEPOT_RELOAD_TIME = 30"
proof (intro conjI impI ballI)
  show "getTripRouteTime trip includeReturn = 0" if "loadedOrders trip = []"
    using that by (rule empty_trip_time)
  show "getTruckTotalRouteTime ts =
          sum_list (map (\<lambda>t. getTripRouteTime t True) ts)
          + DEPOT_RELOAD_TIME * (real (length ts) - 1)" if "ts \<noteq> []"
    using that by (rule truck_time_formula)
  show "DEPOT_RELOAD_TIME = 30" by (simp add: DEPOT_RELOAD_TIME_def)
next
  fix t assume t: "t \<in> set (trucksWithTrips (runOptimizationV3 ordersData trucksData))"
  then show ne: "trips t \<noteq> []" by (rule result_trips_nonempty)
  from result_route_time [OF t] truck_time_formula [OF ne]
  show "totalRouteTime t =
          sum_list (map (\<lambda>tr. getTripRouteTime tr True) (trips t))
          + DEPOT_RELOAD_TIME * (real (length (trips t)) - 1)" by simp
qed

theorem route_time_reload_intervals_witness:
  "loadedOrders (newTrip 2 tkSmall) = []
   \<and> getTripRouteTime (newTrip 2 tkSmall) True = 0
   \<and> [loadOrderIntoTrip (newTrip 1 tkSmall) ordFit, newTrip 2 tkSmall,
       loadOrderIntoTrip (newTrip 3 tkSmall) ordFit] \<noteq> []
   \<and> getTruckTotalRouteTime
        [loadOrderIntoTrip (newTrip 1 tkSmall) ordFit, newTrip 2 tkSmall,
         loadOrderIntoTrip (newTrip 3 tkSmall) ordFit]
      = (40 + 0 + 40) + 30 * (3 - 1)
   \<and> map (\<lambda>t. (length (trips t), totalRouteTime t))
        (trucksWithTrips (runOptimizationV3 [ordFit, ordBig] [tkSmall])) = [(2, 40 + 0 + 30 * (2 - 1))]"
proof -
  let ?ts = "[loadOrderIntoTrip (newTrip 1 tkSmall) ordFit, newTrip 2 tkSmall,
              loadOrderIntoTrip (newTrip 3 tkSmall) ordFit]"
  have e: "loadedOrders (newTrip 2 tkSmall) = []" by simp
  have s: "sum_list (map (\<lambda>t. getTripRouteTime t True) ?ts) = 40 + 0 + 40"
    by code_simp
  have r: "map (\<lambda>t. (length (trips t), totalRouteTime t))
        (trucksWithTrips (runOptimizationV3 [ordFit, ordBig] [tkSmall])) = [(2, 40 + 0 + 30 * (2 - 1))]"
    by code_simp
  from route_time_reload_intervals [of "newTrip 2 tkSmall" True ?ts "[ordFit, ordBig]" "[tkSmall]"]
  have "getTripRouteTime (newTrip 2 tkSmall) True = 0"
    and "getTruckTotalRouteTime ?ts =
          sum_list (map (\<lambda>t. getTripRouteTime t True) ?ts) + DEPOT_RELOAD_TIME * (real (length ?ts) - 1)"
    and "DEPOT_RELOAD_TIME = 30"
    using e by simp_all
  with e s r show ?thesis by simp
qed

text \<open>
  Claim C7, as amended.  The time added at a stop is 15 minutes when the order's flag
  \<open>needsTwoPeople\<close> is set and 10 minutes otherwise, and \<open>autoOptimize\<close> sets the flag exactly
  when the total weight of the order exceeds 50 kg.  The field \<open>helpersRequired\<close> takes no
  part in the time.
\<close>

theorem stop_time_by_weight:
  "(buildOrderData row rows = Some ord \<longrightarrow>
      needsTwoPeople ord = (totalWeight ord > 50)
      \<and> stopTime ord = (if totalWeight ord > 50 then 15 else 10))
   \<and> (loadedOrders trip \<noteq> [] \<and> optimizeZoneOrder (assignedZones trip) \<noteq> [] \<longrightarrow>
        getTripRouteTime trip includeReturn =
          zoneTravelTime (hd (optimizeZoneOrder (assignedZones trip)))
          + interZoneSum (optimizeZoneOrder (assignedZones trip))
          + sum_list (map (\<lambda>ord. if needsTwoPeople ord then 15 else 10) (loadedOrders trip))
          + (if includeReturn then zoneTravelTime (last (optimizeZoneOrder (assignedZones trip)))
             else 0))"
proof (intro conjI impI)
  assume "buildOrderData row rows = Some ord"
  then show "needsTwoPeople ord = (totalWeight ord > 50)"
    by (auto simp: buildOrderData_def Let_def split: if_splits)
  then show "stopTime ord = (if totalWeight ord > 50 then 15 else 10)"
    by (simp add: stopTime_def)
next
  assume "loadedOrders trip \<noteq> [] \<and> optimizeZoneOrder (assignedZones trip) \<noteq> []"
  then show "getTripRouteTime trip includeReturn =
          zoneTravelTime (hd (optimizeZoneOrder (assignedZones trip)))
          + interZoneSum (optimizeZoneOrder (assignedZones trip))
          + sum_list (map (\<lambda>ord. if needsTwoPeople ord then 15 else 10) (loadedOrders trip))
          + (if includeReturn then zoneTravelTime (last (optimizeZoneOrder (assignedZones trip)))
             else 0)"
    by (simp add: getTripRouteTime_def Let_def foldl_add_sum_list stopTime_def)
qed

theorem stop_time_by_weight_witness:
  "map_option totalWeight (buildOrderData rowTwoHelpers rowsTwoHelpers) = Some 20
   \<and> map_option needsTwoPeople (buildOrderData rowTwoHelpers rowsTwoHelpers) = Some False
   \<and> map_option stopTime (buildOrderData rowTwoHelpers rowsTwoHelpers) = Some 10"
proof -
  have w: "map_option totalWeight (buildOrderData rowTwoHelpers rowsTwoHelpers) = Some 20"
    by code_simp
  then obtain ord where b: "buildOrderData rowTwoHelpers rowsTwoHelpers = Some ord"
    and tw: "totalWeight ord = 20" by auto
  from stop_time_by_weight [of rowTwoHelpers rowsTwoHelpers ord] b tw
  have "needsTwoPeople ord = False" and "stopTime ord = 10" by simp_all
  with w b show ?thesis by simp
qed

text \<open>
  The claim as stated fails: an order that requires two helpers and weighs 20 kg is served
  in 10 minutes, not 15; the trip of a one-truck fleet with this single order in the West zone
  takes 15 + 10 + 15 = 40 minutes, also as \<open>runOptimizationV3\<close> plans it.
\<close>

theorem stop_time_two_helpers_counterexample:
  "map_option helpersRequired (buildOrderData rowTwoHelpers rowsTwoHelpers) = Some HTwo
   \<and> map_option stopTime (buildOrderData rowTwoHelpers rowsTwoHelpers) = Some 10
   \<and> map_option (\<lambda>ord. getTripRouteTime (loadOrderIntoTrip (newTrip 1 tkSmall) ord) True)
        (buildOrderData rowTwoHelpers rowsTwoHelpers) = Some 40
   \<and> map_option (\<lambda>ord. map totalRouteTime (trucksWithTrips (runOptimizationV3 [ord] [tkSmall])))
        (buildOrderData rowTwoHelpers rowsTwoHelpers) = Some [40]"
  by code_simp

text \<open>
  Claim C10.  In the second pass an order that fits neither the current trip of a truck nor a
  fresh empty trip of that truck leaves the fresh trip appended to the truck, and the loop
  goes on to the next truck.  The trip stays: it is counted in \<open>summary.totalTrips\<close>, the sum of
  the numbers of trips, and an empty trip next to other trips adds one \<open>DEPOT_RELOAD_TIME\<close>
  to the total route time of its truck.  For the one-truck fleet and the single order larger than the
  truck, the result has two empty trips, \<open>totalTrips = 2\<close> and a route time of 30 minutes.
\<close>

theorem empty_trip_retained:
  "(i < length tw \<and> \<not> canFitInTrip (currentTripOf (tw ! i)) ord
      \<and> \<not> canFitInTrip (newTrip (length (trips (tw ! i)) + 1) (truck (tw ! i))) ord \<longrightarrow>
        multiTripLoop ord (i # is) tw = multiTripLoop ord is (openNewTrip tw i)
        \<and> trips (openNewTrip tw i ! i)
            = trips (tw ! i) @ [newTrip (length (trips (tw ! i)) + 1) (truck (tw ! i))])
   \<and> (loadedOrders e = [] \<and> ts @ us \<noteq> [] \<longrightarrow>
        getTruckTotalRouteTime (ts @ [e] @ us) = getTruckTotalRouteTime (ts @ us) + DEPOT_RELOAD_TIME)
   \<and> s_totalTrips (summary (runOptimizationV3 ordersData trucksData))
       = sum_list (map (\<lambda>t. length (trips t))
           (trucksWithTrips (runOptimizationV3 ordersData trucksData)))
   \<and> map (\<lambda>t. map loadedOrders (trips t)) (trucksWithTrips (runOptimizationV3 [ordBig] [tkSmall]))
       = [[[], []]]
   \<and> s_totalTrips (summary (runOptimizationV3 [ordBig] [tkSmall])) = 2
   \<and> map totalRouteTime (trucksWithTrips (runOptimizationV3 [ordBig] [tkSmall]))
       = [DEPOT_RELOAD_TIME]"
proof (intro conjI impI)
  assume a: "i < length tw \<and> \<not> canFitInTrip (currentTripOf (tw ! i)) ord
      \<and> \<not> canFitInTrip (newTrip (length (trips (tw ! i)) + 1) (truck (tw ! i))) ord"
  then show t: "trips (openNewTrip tw i ! i)
            = trips (tw ! i) @ [newTrip (length (trips (tw ! i)) + 1) (truck (tw ! i))]"
    by (simp add: openNewTrip_def)
  then have "currentTripOf (openNewTrip tw i ! i)
      = newTrip (length (trips (tw ! i)) + 1) (truck (tw ! i))"
    by (simp add: currentTripOf_def)
  with a show "multiTripLoop ord (i # is) tw = multiTripLoop ord is (openNewTrip tw i)"
    by (simp add: Let_def)
next
  assume "loadedOrders e = [] \<and> ts @ us \<noteq> []"
  then show "getTruckTotalRouteTime (ts @ [e] @ us)
      = getTruckTotalRouteTime (ts @ us) + DEPOT_RELOAD_TIME"
    by (simp add: truck_time_formula empty_trip_time algebra_simps)
next
  show "s_totalTrips (summary (runOptimizationV3 ordersData trucksData))
       = sum_list (map (\<lambda>t. length (trips t))
           (trucksWithTrips (runOptimizationV3 ordersData trucksData)))"
    by (simp add: runOptimizationV3_def Let_def foldl_add_sum_list split: prod.splits)
next
  show "map (\<lambda>t. map loadedOrders (trips t)) (trucksWithTrips (runOptimizationV3 [ordBig] [tkSmall]))
       = [[[], []]]"
    by code_simp
  show "s_totalTrips (summary (runOptimizationV3 [ordBig] [tkSmall])) = 2"
    by code_simp
  show "map totalRouteTime (trucksWithTrips (runOptimizationV3 [ordBig] [tkSmall]))
       = [DEPOT_RELOAD_TIME]"
    by code_simp
qed

theorem empty_trip_retained_witness:
  "0 < length [initTruck tkSmall]
   \<and> canFitInTrip (currentTripOf ([initTruck tkSmall] ! 0)) ordBig = False
   \<and> canFitInTrip (newTrip 2 tkSmall) ordBig = False
   \<and> multiTripLoop ordBig [0] [initTruck tkSmall] = (openNewTrip [initTruck tkSmall] 0, False)
   \<and> map tripId (trips (openNewTrip [initTruck tkSmall] 0 ! 0)) = [1, 2]
   \<and> getTruckTotalRouteTime [newTrip 1 tkSmall, newTrip 2 tkSmall]
       = getTruckTotalRouteTime [newTrip 1 tkSmall] + 30"
proof -
  let ?tw = "[initTruck tkSmall]"
  have h: "0 < length ?tw \<and> \<not> canFitInTrip (currentTripOf (?tw ! 0)) ordBig
      \<and> \<not> canFitInTrip (newTrip (length (trips (?tw ! 0)) + 1) (truck (?tw ! 0))) ordBig"
    by code_simp
  have ne: "loadedOrders (newTrip 2 tkSmall) = [] \<and> [newTrip 1 tkSmall] @ [] \<noteq> []" by simp
  note T = empty_trip_retained [of 0 ?tw ordBig "[]" "newTrip 2 tkSmall" "[newTrip 1 tkSmall]" "[]"
      "[]" "[]"]
  from T have "0 < length ?tw \<and> \<not> canFitInTrip (currentTripOf (?tw ! 0)) ordBig
      \<and> \<not> canFitInTrip (newTrip (length (trips (?tw ! 0)) + 1) (truck (?tw ! 0))) ordBig
      \<longrightarrow> multiTripLoop ordBig (0 # []) ?tw = multiTripLoop ordBig [] (openNewTrip ?tw 0)
        \<and> trips (openNewTrip ?tw 0 ! 0)
            = trips (?tw ! 0) @ [newTrip (length (trips (?tw ! 0)) + 1) (truck (?tw ! 0))]"
    by (rule conjunct1)
  from this h have "multiTripLoop ordBig (0 # []) ?tw = multiTripLoop ordBig [] (openNewTrip ?tw 0)
        \<and> trips (openNewTrip ?tw 0 ! 0)
            = trips (?tw ! 0) @ [newTrip (length (trips (?tw ! 0)) + 1) (truck (?tw ! 0))]"
    by (rule mp)
  then have A: "multiTripLoop ordBig [0] ?tw = (openNewTrip ?tw 0, False)"
    by (simp only: multiTripLoop.simps(1))
  from mp [OF T [THEN conjunct2, THEN conjunct1] ne]
  have "getTruckTotalRouteTime ([newTrip 1 tkSmall] @ [newTrip 2 tkSmall] @ [])
       = getTruckTotalRouteTime ([newTrip 1 tkSmall] @ []) + DEPOT_RELOAD_TIME" .
  then have C: "getTruckTotalRouteTime [newTrip 1 tkSmall, newTrip 2 tkSmall]
       = getTruckTotalRouteTime [newTrip 1 tkSmall] + 30"
    by (simp only: DEPOT_RELOAD_TIME_def append.simps append_Nil2)
  have w1: "0 < length ?tw" by simp
  have w2: "canFitInTrip (currentTripOf (?tw ! 0)) ordBig = False" by code_simp
  have w3: "canFitInTrip (newTrip 2 tkSmall) ordBig = False" by code_simp
  have w4: "map tripId (trips (openNewTrip ?tw 0 ! 0)) = [1, 2]" by code_simp
  from w1 w2 w3 A w4 C show ?thesis by (intro conjI)
qed

section \<open>The free-space packer\<close>

lemma blbLe_refl: "blbLe s s"
  by (simp add: blbLe_def)

lemma blbLe_total:
  "sp_z s < sp_z b \<or> (sp_z s = sp_z b \<and> sp_y s < sp_y b)
     \<or> (sp_z s = sp_z b \<and> sp_y s = sp_y b \<and> sp_x s < sp_x b) \<or> blbLe b s"
  unfolding blbLe_def by linarith

lemma blbLe_less_trans:
  assumes "sp_z s < sp_z b \<or> (sp_z s = sp_z b \<and> sp_y s < sp_y b)
     \<or> (sp_z s = sp_z b \<and> sp_y s = sp_y b \<and> sp_x s < sp_x b)"
    and "blbLe b s'"
  shows "blbLe s s'"
  using assms unfolding blbLe_def by linarith

lemma scanned_snoc_skip:
  "scanned rl rw h pre best \<Longrightarrow> \<not> fitsSpace rl rw h s \<Longrightarrow> scanned rl rw h (pre @ [s]) best"
  by (auto simp: scanned_def nth_append split: option.splits)

lemma scanned_snoc_take:
  assumes "scanned rl rw h pre best" and f: "fitsSpace rl rw h s"
    and better: "case best of None \<Rightarrow> True
      | Some (b, bi) \<Rightarrow> sp_z s < sp_z b \<or> (sp_z s = sp_z b \<and> sp_y s < sp_y b)
           \<or> (sp_z s = sp_z b \<and> sp_y s = sp_y b \<and> sp_x s < sp_x b)"
  shows "scanned rl rw h (pre @ [s]) (Some (s, length pre))"
proof (cases best)
  case None
  with assms show ?thesis by (auto simp: scanned_def blbLe_refl)
next
  case (Some p)
  obtain b bi where p: "p = (b, bi)" by (cases p)
  from assms(1) Some p have all: "\<forall>s' \<in> set pre. fitsSpace rl rw h s' \<longrightarrow> blbLe b s'"
    by (simp add: scanned_def)
  from better Some p have lt: "sp_z s < sp_z b \<or> (sp_z s = sp_z b \<and> sp_y s < sp_y b)
           \<or> (sp_z s = sp_z b \<and> sp_y s = sp_y b \<and> sp_x s < sp_x b)" by simp
  have "\<forall>s' \<in> set pre. fitsSpace rl rw h s' \<longrightarrow> blbLe s s'"
    using all blbLe_less_trans [OF lt] by blast
  with f show ?thesis by (simp add: scanned_def blbLe_refl)
qed

lemma scanned_snoc_keep:
  assumes "scanned rl rw h pre (Some (b, bi))"
    and nb: "\<not> (sp_z s < sp_z b \<or> (sp_z s = sp_z b \<and> sp_y s < sp_y b)
           \<or> (sp_z s = sp_z b \<and> sp_y s = sp_y b \<and> sp_x s < sp_x b))"
  shows "scanned rl rw h (pre @ [s]) (Some (b, bi))"
proof -
  from blbLe_total [of s b] nb have "blbLe b s" by blast
  with assms(1) show ?thesis by (auto simp: scanned_def nth_append)
qed

lemma scanSpaces_Cons:
  "scanSpaces rl rw h (space # rest) i best =
     (if fitsSpace rl rw h space
      then (case best of
              None \<Rightarrow> scanSpaces rl rw h rest (Suc i) (Some (space, i))
            | Some (bestSpace, bi) \<Rightarrow>
                if sp_z space < sp_z bestSpace
                   \<or> (sp_z space = sp_z bestSpace \<and> sp_y space < sp_y bestSpace)
                   \<or> (sp_z space = sp_z bestSpace \<and> sp_y space = sp_y bestSpace
                        \<and> sp_x space < sp_x bestSpace)
                then scanSpaces rl rw h rest (Suc i) (Some (space, i))
                else scanSpaces rl rw h rest (Suc i) best)
      else scanSpaces rl rw h rest (Suc i) best)"
  by (simp add: fitsSpace_def)

lemma scanSpaces_scanned:
  "scanned rl rw h pre best \<Longrightarrow>
     scanned rl rw h (pre @ rest) (scanSpaces rl rw h rest (length pre) best)"
proof (induction rest arbitrary: pre best)
  case Nil
  then show ?case by simp
next
  case (Cons s rest)
  have step: "scanned rl rw h ((pre @ [s]) @ rest)
      (scanSpaces rl rw h rest (length (pre @ [s])) best')"
    if "scanned rl rw h (pre @ [s]) best'" for best'
    using that by (rule Cons.IH)
  show ?case
  proof (cases "fitsSpace rl rw h s")
    case False
    from step [OF scanned_snoc_skip [OF Cons.prems False]] False
    show ?thesis by (simp add: scanSpaces_Cons del: scanSpaces.simps)
  next
    case True
    show ?thesis
    proof (cases best)
      case None
      from step [OF scanned_snoc_take [OF Cons.prems True]] None True
      show ?thesis by (simp add: scanSpaces_Cons del: scanSpaces.simps)
    next
      case (Some p)
      obtain b bi where p: "p = (b, bi)" by (cases p)
      show ?thesis
      proof (cases "sp_z s < sp_z b \<or> (sp_z s = sp_z b \<and> sp_y s < sp_y b)
           \<or> (sp_z s = sp_z b \<and> sp_y s = sp_y b \<and> sp_x s < sp_x b)")
        case lt: True
        from step [OF scanned_snoc_take [OF Cons.prems True]] Some p lt True
        show ?thesis by (simp add: scanSpaces_Cons del: scanSpaces.simps)
      next
        case ge: False
        from Cons.prems Some p have "scanned rl rw h pre (Some (b, bi))" by simp
        from step [OF scanned_snoc_keep [OF this ge]] Some p ge True
        show ?thesis by (auto simp add: scanSpaces_Cons simp del: scanSpaces.simps)
      qed
    qed
  qed
qed

lemma scanSpaces_correct: "scanned rl rw h spaces (scanSpaces rl rw h spaces 0 None)"
  using scanSpaces_scanned [of rl rw h "[]" None spaces] by (simp add: scanned_def)

lemma scanSpaces_Some:
  assumes "scanSpaces rl rw h spaces 0 None = Some (b, bi)"
  shows "bi < length spaces" "spaces ! bi = b" "fitsSpace rl rw h b"
    "\<forall>s \<in> set spaces. fitsSpace rl rw h s \<longrightarrow> blbLe b s"
  using scanSpaces_correct [of rl rw h spaces] assms by (simp_all add: scanned_def)

lemma scanSpaces_None:
  "scanSpaces rl rw h spaces 0 None = None \<longleftrightarrow> (\<forall>s \<in> set spaces. \<not> fitsSpace rl rw h s)"
proof
  assume "scanSpaces rl rw h spaces 0 None = None"
  with scanSpaces_correct [of rl rw h spaces]
  show "\<forall>s \<in> set spaces. \<not> fitsSpace rl rw h s" by (simp add: scanned_def)
next
  assume n: "\<forall>s \<in> set spaces. \<not> fitsSpace rl rw h s"
  show "scanSpaces rl rw h spaces 0 None = None"
  proof (cases "scanSpaces rl rw h spaces 0 None")
    case None
    then show ?thesis .
  next
    case (Some p)
    obtain b bi where "p = (b, bi)" by (cases p)
    with Some scanSpaces_Some(1,2,3) [of rl rw h spaces b bi] n show ?thesis
      by (metis nth_mem)
  qed
qed

lemma tryRotation_Some:
  assumes "tryRotation st item rot rl rw = Some st'"
  obtains b bi where "scanSpaces rl rw (item_height item) (ps_spaces st) 0 None = Some (b, bi)"
    and "ps_spaces st' = newSpaces (ps_spaces st) b bi rl rw (item_height item)"
    and "ps_packedItems st' = ps_packedItems st @
           [Item.extend item \<lparr>pos_x = sp_x b, pos_y = sp_y b, pos_z = sp_z b,
                              rotation = rot, rotatedLength = rl, rotatedWidth = rw\<rparr>]"
    and "ps_unpackedItems st' = ps_unpackedItems st"
    and "ps_totalWeight st' = ps_totalWeight st + item_weight item"
    and "ps_totalVolume st' = ps_totalVolume st + item_volume item"
proof (cases "scanSpaces rl rw (item_height item) (ps_spaces st) 0 None")
  case None
  with assms show ?thesis by (simp add: tryRotation_def)
next
  case (Some p)
  obtain b bi where p: "p = (b, bi)" by (cases p)
  from assms Some p have "st' = \<lparr>ps_spaces = newSpaces (ps_spaces st) b bi rl rw (item_height item),
                ps_packedItems = ps_packedItems st @
                  [Item.extend item
                     \<lparr>pos_x = sp_x b, pos_y = sp_y b, pos_z = sp_z b,
                      rotation = rot, rotatedLength = rl, rotatedWidth = rw\<rparr>],
                ps_unpackedItems = ps_unpackedItems st,
                ps_totalWeight = ps_totalWeight st + item_weight item,
                ps_totalVolume = ps_totalVolume st + item_volume item\<rparr>"
    by (simp add: tryRotation_def)
  then show ?thesis using Some p that [of b bi] by simp
qed

lemma tryRotation_None:
  "tryRotation st item rot rl rw = None
     \<longleftrightarrow> (\<forall>s \<in> set (ps_spaces st). \<not> fitsSpace rl rw (item_height item) s)"
  using scanSpaces_None [of rl rw "item_height item" "ps_spaces st"]
  by (auto simp: tryRotation_def split: option.splits)

lemma item_weight_extend [simp]: "item_weight (Item.extend item e) = item_weight item"
  by (simp add: Item.extend_def)

lemma packStep_inv:
  assumes "pack_inv bin st"
  shows "pack_inv bin (packStep bin st item)"
proof (cases "ps_totalWeight st + item_weight item > bin_maxWeight bin")
  case True
  with assms show ?thesis by (auto simp: packStep_def pack_inv_def)
next
  case False
  have placed: "pack_inv bin st'" if "tryRotation st item rot rl rw = Some st'" for st' rot rl rw
    using that
  proof (rule tryRotation_Some)
    fix b :: Space and bi :: nat
    assume "ps_packedItems st' = ps_packedItems st @
           [Item.extend item \<lparr>pos_x = sp_x b, pos_y = sp_y b, pos_z = sp_z b,
                              rotation = rot, rotatedLength = rl, rotatedWidth = rw\<rparr>]"
      and "ps_totalWeight st' = ps_totalWeight st + item_weight item"
    with assms False show "pack_inv bin st'" by (simp add: pack_inv_def)
  qed
  show ?thesis
  proof (cases "tryRotation st item 0 (item_length item) (item_width item)")
    case (Some st')
    with False placed [OF Some] show ?thesis by (simp add: packStep_def)
  next
    case None
    show ?thesis
    proof (cases "tryRotation st item 90 (item_width item) (item_length item)")
      case (Some st')
      with False None placed [OF Some] show ?thesis by (simp add: packStep_def)
    next
      case None2: None
      with False None assms show ?thesis by (auto simp: packStep_def pack_inv_def)
    qed
  qed
qed

lemma foldl_packStep_inv: "pack_inv bin st \<Longrightarrow> pack_inv bin (foldl (packStep bin) st its)"
  by (induction its arbitrary: st) (simp_all add: packStep_inv)

lemma init_pack_inv: "pack_inv bin (initPackState bin)"
  by (simp add: pack_inv_def initPackState_def)

lemma packItems_fields:
  "packedItems (packItems its bin)
     = ps_packedItems (foldl (packStep bin) (initPackState bin) (sort_key (\<lambda>i. - item_volume i) its))"
  "unpackedItems (packItems its bin)
     = ps_unpackedItems (foldl (packStep bin) (initPackState bin) (sort_key (\<lambda>i. - item_volume i) its))"
  "packedWeight (packItems its bin)
     = ps_totalWeight (foldl (packStep bin) (initPackState bin) (sort_key (\<lambda>i. - item_volume i) its))"
  "centerOfGravity (packItems its bin)
     = centerOfGravityOf (packedItems (packItems its bin)) (packedWeight (packItems its bin))"
  "isBalanced (packItems its bin) = isBalancedOf bin (centerOfGravity (packItems its bin))"
  by (simp_all add: packItems_def Let_def)

text \<open>
  Claim C2.  The weights of the packed items sum to at most \<open>bin.maxWeight\<close>, for every item
  list and every container whose maximal weight is not negative (the truck schema admits
  positive weights only); the reported total weight is that sum.  An item whose weight added
  to the running weight exceeds the limit goes to \<open>unpackedItems\<close> and nothing else of the
  state changes: no free box is looked at or split.  With \<open>maxWeight = 25\<close> and three items of
  10 kg, two items are packed, one is unpacked, and the packed weight is 20.
\<close>

theorem pack_weight_limit:
  "(0 \<le> bin_maxWeight bin \<longrightarrow>
      sum_list (map item_weight (packedItems (packItems its bin))) \<le> bin_maxWeight bin
      \<and> packedWeight (packItems its bin)
          = sum_list (map item_weight (packedItems (packItems its bin))))
   \<and> (ps_totalWeight st + item_weight item > bin_maxWeight bin \<longrightarrow>
        packStep bin st item = st\<lparr>ps_unpackedItems := ps_unpackedItems st @ [item]\<rparr>)
   \<and> map item_id (packedItems (packItems [cube50 1, cube50 2, cube50 3] binWeight25)) = [1, 2]
   \<and> map item_id (unpackedItems (packItems [cube50 1, cube50 2, cube50 3] binWeight25)) = [3]
   \<and> packedWeight (packItems [cube50 1, cube50 2, cube50 3] binWeight25) = 20"
proof (intro conjI impI)
  assume m: "0 \<le> bin_maxWeight bin"
  have "pack_inv bin (packState its bin)"
    unfolding packState_def by (rule foldl_packStep_inv) (rule init_pack_inv)
  with m show "sum_list (map item_weight (packedItems (packItems its bin))) \<le> bin_maxWeight bin"
    and "packedWeight (packItems its bin)
          = sum_list (map item_weight (packedItems (packItems its bin)))"
    by (simp_all add: packItems_fields pack_inv_def packState_def)
next
  assume "ps_totalWeight st + item_weight item > bin_maxWeight bin"
  then show "packStep bin st item = st\<lparr>ps_unpackedItems := ps_unpackedItems st @ [item]\<rparr>"
    by (simp add: packStep_def)
next
  show "map item_id (packedItems (packItems [cube50 1, cube50 2, cube50 3] binWeight25)) = [1, 2]"
    by code_simp
  show "map item_id (unpackedItems (packItems [cube50 1, cube50 2, cube50 3] binWeight25)) = [3]"
    by code_simp
  show "packedWeight (packItems [cube50 1, cube50 2, cube50 3] binWeight25) = 20"
    by code_simp
qed

theorem pack_weight_limit_witness:
  "0 \<le> bin_maxWeight binWeight25
   \<and> sum_list (map item_weight (packedItems (packItems [cube50 1, cube50 2, cube50 3] binWeight25)))
       \<le> bin_maxWeight binWeight25
   \<and> sum_list (map item_weight (packedItems (packItems [cube50 1, cube50 2, cube50 3] binWeight25)))
       = 20
   \<and> ps_totalWeight (foldl (packStep binWeight25) (initPackState binWeight25) [cube50 1, cube50 2])
       + item_weight (cube50 3) > bin_maxWeight binWeight25
   \<and> ps_spaces (packStep binWeight25
         (foldl (packStep binWeight25) (initPackState binWeight25) [cube50 1, cube50 2]) (cube50 3))
       = ps_spaces (foldl (packStep binWeight25) (initPackState binWeight25) [cube50 1, cube50 2])"
proof -
  let ?st = "foldl (packStep binWeight25) (initPackState binWeight25) [cube50 1, cube50 2]"
  have h1: "0 \<le> bin_maxWeight binWeight25" by (simp add: binWeight25_def)
  have h2: "ps_totalWeight ?st + item_weight (cube50 3) > bin_maxWeight binWeight25"
    by code_simp
  note T = pack_weight_limit [of binWeight25 "[cube50 1, cube50 2, cube50 3]" ?st "cube50 3"]
  from T have "0 \<le> bin_maxWeight binWeight25 \<longrightarrow>
      sum_list (map item_weight (packedItems (packItems [cube50 1, cube50 2, cube50 3] binWeight25)))
        \<le> bin_maxWeight binWeight25
      \<and> packedWeight (packItems [cube50 1, cube50 2, cube50 3] binWeight25)
          = sum_list (map item_weight (packedItems (packItems [cube50 1, cube50 2, cube50 3] binWeight25)))"
    by (rule conjunct1)
  from this h1 have a: "sum_list (map item_weight (packedItems (packItems [cube50 1, cube50 2, cube50 3] binWeight25)))
        \<le> bin_maxWeight binWeight25
      \<and> packedWeight (packItems [cube50 1, cube50 2, cube50 3] binWeight25)
          = sum_list (map item_weight (packedItems (packItems [cube50 1, cube50 2, cube50 3] binWeight25)))"
    by (rule mp)
  from T have "packedWeight (packItems [cube50 1, cube50 2, cube50 3] binWeight25) = 20"
    by simp
  with a have b: "sum_list (map item_weight (packedItems (packItems [cube50 1, cube50 2, cube50 3] binWeight25))) = 20"
    by simp
  from T have "ps_totalWeight ?st + item_weight (cube50 3) > bin_maxWeight binWeight25 \<longrightarrow>
        packStep binWeight25 ?st (cube50 3) = ?st\<lparr>ps_unpackedItems := ps_unpackedItems ?st @ [cube50 3]\<rparr>"
    by (rule conjunct2 [THEN conjunct1])
  from this h2 have "packStep binWeight25 ?st (cube50 3)
      = ?st\<lparr>ps_unpackedItems := ps_unpackedItems ?st @ [cube50 3]\<rparr>"
    by (rule mp)
  then have c: "ps_spaces (packStep binWeight25 ?st (cube50 3)) = ps_spaces ?st" by simp
  from h1 a b h2 c show ?thesis by (intro conjI) simp_all
qed

lemma packStep_rotation0:
  assumes "\<not> ps_totalWeight st + item_weight item > bin_maxWeight bin"
    and "tryRotation st item 0 (item_length item) (item_width item) = Some st'"
  shows "packStep bin st item = st'" "rotation (last (ps_packedItems st')) = 0"
proof -
  from assms show "packStep bin st item = st'" by (simp add: packStep_def)
  from assms(2) show "rotation (last (ps_packedItems st')) = 0"
    by (rule tryRotation_Some) (simp add: Item.extend_def)
qed

lemma packStep_rotation90:
  assumes "\<not> ps_totalWeight st + item_weight item > bin_maxWeight bin"
    and "\<forall>s \<in> set (ps_spaces st). \<not> fitsSpace (item_length item) (item_width item) (item_height item) s"
    and "tryRotation st item 90 (item_width item) (item_length item) = Some st'"
  shows "packStep bin st item = st'" "rotation (last (ps_packedItems st')) = 90"
proof -
  from assms(2) have "tryRotation st item 0 (item_length item) (item_width item) = None"
    by (simp add: tryRotation_None)
  with assms show "packStep bin st item = st'" by (simp add: packStep_def)
  from assms(3) show "rotation (last (ps_packedItems st')) = 90"
    by (rule tryRotation_Some) (simp add: Item.extend_def)
qed

lemma packStep_no_fit:
  assumes "\<forall>s \<in> set (ps_spaces st). \<not> fitsSpace (item_length item) (item_width item) (item_height item) s"
    and "\<forall>s \<in> set (ps_spaces st). \<not> fitsSpace (item_width item) (item_length item) (item_height item) s"
  shows "packStep bin st item = st\<lparr>ps_unpackedItems := ps_unpackedItems st @ [item]\<rparr>"
proof -
  from assms have "tryRotation st item 0 (item_length item) (item_width item) = None"
    and "tryRotation st item 90 (item_width item) (item_length item) = None"
    by (simp_all add: tryRotation_None)
  then show ?thesis by (simp add: packStep_def)
qed

lemma tryRotation_choice:
  "tryRotation st item rot rl rw = Some st' \<longrightarrow>
     (\<exists>b bi. bi < length (ps_spaces st) \<and> ps_spaces st ! bi = b
           \<and> fitsSpace rl rw (item_height item) b
           \<and> (\<forall>s \<in> set (ps_spaces st). fitsSpace rl rw (item_height item) s \<longrightarrow> blbLe b s)
           \<and> ps_packedItems st' = ps_packedItems st @
                [Item.extend item \<lparr>pos_x = sp_x b, pos_y = sp_y b, pos_z = sp_z b,
                                   rotation = rot, rotatedLength = rl, rotatedWidth = rw\<rparr>]
           \<and> ps_spaces st' =
                take bi (ps_spaces st) @ drop (Suc bi) (ps_spaces st)
                @ (if sp_w b - rl > 0
                   then [\<lparr>sp_x = sp_x b + rl, sp_y = sp_y b, sp_z = sp_z b,
                          sp_w = sp_w b - rl, sp_d = sp_d b, sp_h = sp_h b\<rparr>] else [])
                @ (if sp_d b - rw > 0
                   then [\<lparr>sp_x = sp_x b, sp_y = sp_y b + rw, sp_z = sp_z b,
                          sp_w = rl, sp_d = sp_d b - rw, sp_h = sp_h b\<rparr>] else [])
                @ (if sp_h b - item_height item > 0
                   then [\<lparr>sp_x = sp_x b, sp_y = sp_y b, sp_z = sp_z b + item_height item,
                          sp_w = rl, sp_d = rw, sp_h = sp_h b - item_height item\<rparr>] else []))"
proof (rule impI, erule tryRotation_Some)
  fix b :: Space and bi :: nat
  assume sc: "scanSpaces rl rw (item_height item) (ps_spaces st) 0 None = Some (b, bi)"
    and sp: "ps_spaces st' = newSpaces (ps_spaces st) b bi rl rw (item_height item)"
    and pk: "ps_packedItems st' = ps_packedItems st @
           [Item.extend item \<lparr>pos_x = sp_x b, pos_y = sp_y b, pos_z = sp_z b,
                              rotation = rot, rotatedLength = rl, rotatedWidth = rw\<rparr>]"
  from scanSpaces_Some [OF sc] sp pk
  show "\<exists>b bi. bi < length (ps_spaces st) \<and> ps_spaces st ! bi = b
           \<and> fitsSpace rl rw (item_height item) b
           \<and> (\<forall>s \<in> set (ps_spaces st). fitsSpace rl rw (item_height item) s \<longrightarrow> blbLe b s)
           \<and> ps_packedItems st' = ps_packedItems st @
                [Item.extend item \<lparr>pos_x = sp_x b, pos_y = sp_y b, pos_z = sp_z b,
                                   rotation = rot, rotatedLength = rl, rotatedWidth = rw\<rparr>]
           \<and> ps_spaces st' =
                take bi (ps_spaces st) @ drop (Suc bi) (ps_spaces st)
                @ (if sp_w b - rl > 0
                   then [\<lparr>sp_x = sp_x b + rl, sp_y = sp_y b, sp_z = sp_z b,
                          sp_w = sp_w b - rl, sp_d = sp_d b, sp_h = sp_h b\<rparr>] else [])
                @ (if sp_d b - rw > 0
                   then [\<lparr>sp_x = sp_x b, sp_y = sp_y b + rw, sp_z = sp_z b,
                          sp_w = rl, sp_d = sp_d b - rw, sp_h = sp_h b\<rparr>] else [])
                @ (if sp_h b - item_height item > 0
                   then [\<lparr>sp_x = sp_x b, sp_y = sp_y b, sp_z = sp_z b + item_height item,
                          sp_w = rl, sp_d = rw, sp_h = sp_h b - item_height item\<rparr>] else [])"
    unfolding newSpaces_def by blast
qed

text \<open>
  Claim C3.  \<open>packItems\<close> runs its loop over the items in descending order of volume.  For an
  item within the weight limit it tries rotation 0 and, when no free box fits, rotation 90;
  when no free box fits in either rotation the item goes to \<open>unpackedItems\<close>.  Within a
  rotation the item is placed at the corner of a free box that fits it and ranks lowest by
  (z, then y, then x); that box is removed and up to three boxes are added at the end, in
  the order +x, +y, +z, each only when its remaining extent is strictly positive.  An item of
  length 150 is unpacked from the container of 100 x 100 x 100, and nothing is packed.
\<close>

theorem pack_placement_rule:
  "(packedItems (packItems its bin) = ps_packedItems (packState its bin)
      \<and> unpackedItems (packItems its bin) = ps_unpackedItems (packState its bin)
      \<and> packState its bin
          = foldl (packStep bin) (initPackState bin) (sort_key (\<lambda>i. - item_volume i) its)
      \<and> sorted (map (\<lambda>i. - item_volume i) (sort_key (\<lambda>i. - item_volume i) its))
      \<and> mset (sort_key (\<lambda>i. - item_volume i) its) = mset its)
   \<and> (\<not> ps_totalWeight st + item_weight item > bin_maxWeight bin
        \<and> tryRotation st item 0 (item_length item) (item_width item) = Some st' \<longrightarrow>
          packStep bin st item = st' \<and> rotation (last (ps_packedItems st')) = 0)
   \<and> (\<not> ps_totalWeight st + item_weight item > bin_maxWeight bin
        \<and> (\<forall>s \<in> set (ps_spaces st).
              \<not> fitsSpace (item_length item) (item_width item) (item_height item) s)
        \<and> tryRotation st item 90 (item_width item) (item_length item) = Some st' \<longrightarrow>
          packStep bin st item = st' \<and> rotation (last (ps_packedItems st')) = 90)
   \<and> ((\<forall>s \<in> set (ps_spaces st).
           \<not> fitsSpace (item_length item) (item_width item) (item_height item) s)
        \<and> (\<forall>s \<in> set (ps_spaces st).
             \<not> fitsSpace (item_width item) (item_length item) (item_height item) s) \<longrightarrow>
          packStep bin st item = st\<lparr>ps_unpackedItems := ps_unpackedItems st @ [item]\<rparr>)
   \<and> (tryRotation st item rot rl rw = None
        \<longleftrightarrow> (\<forall>s \<in> set (ps_spaces st). \<not> fitsSpace rl rw (item_height item) s))
   \<and> (tryRotation st item rot rl rw = Some st' \<longrightarrow>
        (\<exists>b bi. bi < length (ps_spaces st) \<and> ps_spaces st ! bi = b
           \<and> fitsSpace rl rw (item_height item) b
           \<and> (\<forall>s \<in> set (ps_spaces st). fitsSpace rl rw (item_height item) s \<longrightarrow> blbLe b s)
           \<and> ps_packedItems st' = ps_packedItems st @
                [Item.extend item \<lparr>pos_x = sp_x b, pos_y = sp_y b, pos_z = sp_z b,
                                   rotation = rot, rotatedLength = rl, rotatedWidth = rw\<rparr>]
           \<and> ps_spaces st' =
                take bi (ps_spaces st) @ drop (Suc bi) (ps_spaces st)
                @ (if sp_w b - rl > 0
                   then [\<lparr>sp_x = sp_x b + rl, sp_y = sp_y b, sp_z = sp_z b,
                          sp_w = sp_w b - rl, sp_d = sp_d b, sp_h = sp_h b\<rparr>] else [])
                @ (if sp_d b - rw > 0
                   then [\<lparr>sp_x = sp_x b, sp_y = sp_y b + rw, sp_z = sp_z b,
                          sp_w = rl, sp_d = sp_d b - rw, sp_h = sp_h b\<rparr>] else [])
                @ (if sp_h b - item_height item > 0
                   then [\<lparr>sp_x = sp_x b, sp_y = sp_y b, sp_z = sp_z b + item_height item,
                          sp_w = rl, sp_d = rw, sp_h = sp_h b - item_height item\<rparr>] else [])))
   \<and> unpackedItems (packItems [itemLong150] bin100) = [itemLong150]
   \<and> length (packedItems (packItems [itemLong150] bin100)) = 0"
proof -
  have A: "packedItems (packItems its bin) = ps_packedItems (packState its bin)
      \<and> unpackedItems (packItems its bin) = ps_unpackedItems (packState its bin)
      \<and> packState its bin
          = foldl (packStep bin) (initPackState bin) (sort_key (\<lambda>i. - item_volume i) its)
      \<and> sorted (map (\<lambda>i. - item_volume i) (sort_key (\<lambda>i. - item_volume i) its))
      \<and> mset (sort_key (\<lambda>i. - item_volume i) its) = mset its"
    by (simp add: packItems_fields packState_def)
  have E: "unpackedItems (packItems [itemLong150] bin100) = [itemLong150]"
    "length (packedItems (packItems [itemLong150] bin100)) = 0"
    by code_simp+
  have B: "\<not> ps_totalWeight st + item_weight item > bin_maxWeight bin
        \<and> tryRotation st item 0 (item_length item) (item_width item) = Some st' \<longrightarrow>
          packStep bin st item = st' \<and> rotation (last (ps_packedItems st')) = 0"
    using packStep_rotation0 by blast
  have C: "\<not> ps_totalWeight st + item_weight item > bin_maxWeight bin
        \<and> (\<forall>s \<in> set (ps_spaces st).
              \<not> fitsSpace (item_length item) (item_width item) (item_height item) s)
        \<and> tryRotation st item 90 (item_width item) (item_length item) = Some st' \<longrightarrow>
          packStep bin st item = st' \<and> rotation (last (ps_packedItems st')) = 90"
    using packStep_rotation90 by blast
  have D: "(\<forall>s \<in> set (ps_spaces st).
           \<not> fitsSpace (item_length item) (item_width item) (item_height item) s)
        \<and> (\<forall>s \<in> set (ps_spaces st).
             \<not> fitsSpace (item_width item) (item_length item) (item_height item) s) \<longrightarrow>
          packStep bin st item = st\<lparr>ps_unpackedItems := ps_unpackedItems st @ [item]\<rparr>"
    using packStep_no_fit by blast
  note F = tryRotation_None [of st item rot rl rw]
  note G = tryRotation_choice [of st item rot rl rw st']
  show ?thesis
    using A B C D F G E by (elim conjE, intro conjI) assumption+
qed

theorem pack_placement_rule_witness:
  "tryRotation (initPackState bin100x150) itemTurn 0 60 120 = None
   \<and> rotation (last (ps_packedItems (packStep bin100x150 (initPackState bin100x150) itemTurn))) = 90
   \<and> ps_spaces (packStep bin100x150 (initPackState bin100x150) itemTurn)
       = [\<lparr>sp_x = 120, sp_y = 0, sp_z = 0, sp_w = 30, sp_d = 100, sp_h = 100\<rparr>,
          \<lparr>sp_x = 0, sp_y = 60, sp_z = 0, sp_w = 120, sp_d = 40, sp_h = 100\<rparr>,
          \<lparr>sp_x = 0, sp_y = 0, sp_z = 50, sp_w = 120, sp_d = 60, sp_h = 50\<rparr>]"
proof -
  let ?st = "initPackState bin100x150"
  let ?st' = "packStep bin100x150 ?st itemTurn"
  have h1: "\<not> ps_totalWeight ?st + item_weight itemTurn > bin_maxWeight bin100x150"
    by code_simp
  have h2: "\<forall>s \<in> set (ps_spaces ?st).
      \<not> fitsSpace (item_length itemTurn) (item_width itemTurn) (item_height itemTurn) s"
    by code_simp
  have h3: "tryRotation ?st itemTurn 90 (item_width itemTurn) (item_length itemTurn) = Some ?st'"
    by code_simp
  note T = pack_placement_rule [where st = ?st and item = itemTurn and bin = bin100x150
      and st' = ?st' and its = "[]" and rot = 0 and rl = 60 and rw = 120]
  note C = T [THEN conjunct2, THEN conjunct2, THEN conjunct1]
  from mp [OF C conjI [OF h1 conjI [OF h2 h3]]]
  have r: "rotation (last (ps_packedItems ?st')) = 90" by (rule conjunct2)
  have n: "tryRotation ?st itemTurn 0 60 120 = None" by code_simp
  have s: "ps_spaces ?st'
       = [\<lparr>sp_x = 120, sp_y = 0, sp_z = 0, sp_w = 30, sp_d = 100, sp_h = 100\<rparr>,
          \<lparr>sp_x = 0, sp_y = 60, sp_z = 0, sp_w = 120, sp_d = 40, sp_h = 100\<rparr>,
          \<lparr>sp_x = 0, sp_y = 0, sp_z = 50, sp_w = 120, sp_d = 60, sp_h = 50\<rparr>]"
    by code_simp
  from n r s show ?thesis by (intro conjI)
qed

section \<open>Center of gravity and balance\<close>

lemma cogSums_foldl:
  "foldl (\<lambda>(cx, cy, cz) p.
              (cx + (pos_x p + rotatedLength p / 2) * item_weight p,
               cy + (pos_y p + rotatedWidth p / 2) * item_weight p,
               cz + (pos_z p + item_height p / 2) * item_weight p)) (a, b, c) ps
   = (a + sum_list (map (\<lambda>p. (pos_x p + rotatedLength p / 2) * item_weight p) ps),
      b + sum_list (map (\<lambda>p. (pos_y p + rotatedWidth p / 2) * item_weight p) ps),
      c + sum_list (map (\<lambda>p. (pos_z p + item_height p / 2) * item_weight p) ps))"
  by (induction ps arbitrary: a b c) (simp_all add: add.assoc)

lemma cogSums_sum:
  "cogSums ps
   = (sum_list (map (\<lambda>p. (pos_x p + rotatedLength p / 2) * item_weight p) ps),
      sum_list (map (\<lambda>p. (pos_y p + rotatedWidth p / 2) * item_weight p) ps),
      sum_list (map (\<lambda>p. (pos_z p + item_height p / 2) * item_weight p) ps))"
  unfolding cogSums_def cogSums_foldl by simp

lemma packedWeight_sum:
  "packedWeight (packItems its bin) = sum_list (map item_weight (packedItems (packItems its bin)))"
proof -
  have "pack_inv bin (packState its bin)"
    unfolding packState_def by (rule foldl_packStep_inv) (rule init_pack_inv)
  then show ?thesis by (simp add: packItems_fields pack_inv_def packState_def)
qed

lemma packStep_weights_nonneg:
  assumes "0 \<le> item_weight item" and "\<forall>p \<in> set (ps_packedItems st). 0 \<le> item_weight p"
  shows "\<forall>p \<in> set (ps_packedItems (packStep bin st item)). 0 \<le> item_weight p"
proof -
  have placed: "\<forall>p \<in> set (ps_packedItems st'). 0 \<le> item_weight p"
    if "tryRotation st item rot rl rw = Some st'" for st' rot rl rw
    using that
  proof (rule tryRotation_Some)
    fix b :: Space and bi :: nat
    assume "ps_packedItems st' = ps_packedItems st @
           [Item.extend item \<lparr>pos_x = sp_x b, pos_y = sp_y b, pos_z = sp_z b,
                              rotation = rot, rotatedLength = rl, rotatedWidth = rw\<rparr>]"
    with assms show "\<forall>p \<in> set (ps_packedItems st'). 0 \<le> item_weight p" by auto
  qed
  show ?thesis
    using assms(2) placed
    by (auto simp: packStep_def split: option.splits)
qed

lemma foldl_packStep_weights_nonneg:
  "\<forall>i \<in> set its. 0 \<le> item_weight i \<Longrightarrow> \<forall>p \<in> set (ps_packedItems st). 0 \<le> item_weight p
     \<Longrightarrow> \<forall>p \<in> set (ps_packedItems (foldl (packStep bin) st its)). 0 \<le> item_weight p"
proof (induction its arbitrary: st)
  case Nil
  then show ?case by simp
next
  case (Cons i its)
  from Cons.prems have i: "0 \<le> item_weight i" and r: "\<forall>i \<in> set its. 0 \<le> item_weight i"
    by simp_all
  from Cons.IH [OF r packStep_weights_nonneg [OF i Cons.prems(2)]] show ?case by simp
qed

lemma packedWeight_nonneg:
  assumes "\<forall>i \<in> set its. 0 \<le> item_weight i"
  shows "0 \<le> packedWeight (packItems its bin)"
proof -
  from assms have "\<forall>i \<in> set (sort_key (\<lambda>i. - item_volume i) its). 0 \<le> item_weight i" by simp
  then have "\<forall>p \<in> set (ps_packedItems (foldl (packStep bin) (initPackState bin)
      (sort_key (\<lambda>i. - item_volume i) its))). 0 \<le> item_weight p"
    by (rule foldl_packStep_weights_nonneg) (simp add: initPackState_def)
  then have "0 \<le> sum_list (map item_weight (packedItems (packItems its bin)))"
    by (intro sum_list_nonneg) (auto simp: packItems_fields)
  then show ?thesis by (simp add: packedWeight_sum)
qed

lemma cog_positive_weight:
  assumes "packedWeight (packItems its bin) > 0"
  shows "centerOfGravity (packItems its bin) =
     (sum_list (map (\<lambda>p. (pos_x p + rotatedLength p / 2) * item_weight p)
          (packedItems (packItems its bin)))
        / sum_list (map item_weight (packedItems (packItems its bin))),
      sum_list (map (\<lambda>p. (pos_y p + rotatedWidth p / 2) * item_weight p)
          (packedItems (packItems its bin)))
        / sum_list (map item_weight (packedItems (packItems its bin))),
      sum_list (map (\<lambda>p. (pos_z p + item_height p / 2) * item_weight p)
          (packedItems (packItems its bin)))
        / sum_list (map item_weight (packedItems (packItems its bin))))"
proof -
  have "centerOfGravity (packItems its bin)
      = centerOfGravityOf (packedItems (packItems its bin)) (packedWeight (packItems its bin))"
    by (rule packItems_fields(4))
  also have "\<dots> = (case cogSums (packedItems (packItems its bin)) of
      (cx, cy, cz) \<Rightarrow> (cx / packedWeight (packItems its bin), cy / packedWeight (packItems its bin),
                       cz / packedWeight (packItems its bin)))"
    using assms by (simp add: centerOfGravityOf_def)
  finally show ?thesis
    unfolding cogSums_sum packedWeight_sum [symmetric] by simp
qed

text \<open>
  Claim C4.  When the total packed weight is zero the center of gravity is the origin.
  Otherwise, the item weights being not negative as the SKU schema validates them, it is the
  weight-weighted mean of the centers \<open>(x + rotatedLength/2, y + rotatedWidth/2, z + height/2)\<close>
  of the packed items.  The load is balanced exactly when \<open>|cog.x - width/2| \<le> 0.3 width\<close> and
  \<open>|cog.y - depth/2| \<le> 0.3 depth\<close>; the z coordinate takes no part.  One item of
  100 x 100 x 50 is placed at the origin and has the centroid (50, 50, 25).
\<close>

theorem center_of_gravity_balance:
  "(packedWeight (packItems its bin) = 0 \<longrightarrow> centerOfGravity (packItems its bin) = (0, 0, 0))
   \<and> ((\<forall>i \<in> set its. 0 \<le> item_weight i) \<and> packedWeight (packItems its bin) \<noteq> 0 \<longrightarrow>
        centerOfGravity (packItems its bin) =
          (sum_list (map (\<lambda>p. (pos_x p + rotatedLength p / 2) * item_weight p)
               (packedItems (packItems its bin)))
             / sum_list (map item_weight (packedItems (packItems its bin))),
           sum_list (map (\<lambda>p. (pos_y p + rotatedWidth p / 2) * item_weight p)
               (packedItems (packItems its bin)))
             / sum_list (map item_weight (packedItems (packItems its bin))),
           sum_list (map (\<lambda>p. (pos_z p + item_height p / 2) * item_weight p)
               (packedItems (packItems its bin)))
             / sum_list (map item_weight (packedItems (packItems its bin)))))
   \<and> packedWeight (packItems its bin) = sum_list (map item_weight (packedItems (packItems its bin)))
   \<and> (isBalanced (packItems its bin) \<longleftrightarrow>
        \<bar>fst (centerOfGravity (packItems its bin)) - bin_width bin / 2\<bar> \<le> 3 / 10 * bin_width bin
        \<and> \<bar>fst (snd (centerOfGravity (packItems its bin))) - bin_depth bin / 2\<bar>
            \<le> 3 / 10 * bin_depth bin)
   \<and> map (\<lambda>p. (pos_x p, pos_y p, pos_z p, rotatedLength p, rotatedWidth p, item_height p))
        (packedItems (packItems [itemFlat] binLarge)) = [(0, 0, 0, 100, 100, 50)]
   \<and> centerOfGravity (packItems [itemFlat] binLarge) = (50, 50, 25)"
proof (intro conjI impI)
  assume "packedWeight (packItems its bin) = 0"
  then show "centerOfGravity (packItems its bin) = (0, 0, 0)"
    by (simp add: packItems_fields(4) centerOfGravityOf_def)
next
  assume a: "(\<forall>i \<in> set its. 0 \<le> item_weight i) \<and> packedWeight (packItems its bin) \<noteq> 0"
  with packedWeight_nonneg [of its bin] have "packedWeight (packItems its bin) > 0" by simp
  then show "centerOfGravity (packItems its bin) =
          (sum_list (map (\<lambda>p. (pos_x p + rotatedLength p / 2) * item_weight p)
               (packedItems (packItems its bin)))
             / sum_list (map item_weight (packedItems (packItems its bin))),
           sum_list (map (\<lambda>p. (pos_y p + rotatedWidth p / 2) * item_weight p)
               (packedItems (packItems its bin)))
             / sum_list (map item_weight (packedItems (packItems its bin))),
           sum_list (map (\<lambda>p. (pos_z p + item_height p / 2) * item_weight p)
               (packedItems (packItems its bin)))
             / sum_list (map item_weight (packedItems (packItems its bin))))"
    by (rule cog_positive_weight)
next
  show "packedWeight (packItems its bin)
      = sum_list (map item_weight (packedItems (packItems its bin)))"
    by (rule packedWeight_sum)
  show "isBalanced (packItems its bin) \<longleftrightarrow>
        \<bar>fst (centerOfGravity (packItems its bin)) - bin_width bin / 2\<bar> \<le> 3 / 10 * bin_width bin
        \<and> \<bar>fst (snd (centerOfGravity (packItems its bin))) - bin_depth bin / 2\<bar>
            \<le> 3 / 10 * bin_depth bin"
    unfolding packItems_fields(5) isBalancedOf_def
    by (cases "centerOfGravity (packItems its bin)") (simp add: mult.commute)
  show "map (\<lambda>p. (pos_x p, pos_y p, pos_z p, rotatedLength p, rotatedWidth p, item_height p))
        (packedItems (packItems [itemFlat] binLarge)) = [(0, 0, 0, 100, 100, 50)]"
    by code_simp
  show "centerOfGravity (packItems [itemFlat] binLarge) = (50, 50, 25)"
    by code_simp
qed

theorem center_of_gravity_balance_witness:
  "packedWeight (packItems [] binLarge) = 0
   \<and> centerOfGravity (packItems [] binLarge) = (0, 0, 0)
   \<and> list_all (\<lambda>i. 0 \<le> item_weight i) [cube50 1, cube50 2]
   \<and> packedWeight (packItems [cube50 1, cube50 2] binLarge) = 20
   \<and> centerOfGravity (packItems [cube50 1, cube50 2] binLarge)
       = ((25 * 10 + 75 * 10) / 20, (25 * 10 + 25 * 10) / 20, (25 * 10 + 25 * 10) / 20)
   \<and> isBalanced (packItems [cube50 1, cube50 2] binLarge) = False"
proof -
  let ?R = "packItems [cube50 1, cube50 2] binLarge"
  have z: "packedWeight (packItems [] binLarge) = 0" by code_simp
  note T0 = center_of_gravity_balance [of "[]" binLarge]
  from mp [OF T0 [THEN conjunct1] z]
  have c0: "centerOfGravity (packItems [] binLarge) = (0, 0, 0)" .
  have h: "(\<forall>i \<in> set [cube50 1, cube50 2]. 0 \<le> item_weight i) \<and> packedWeight ?R \<noteq> 0"
    by code_simp
  have w: "packedWeight ?R = 20" by code_simp
  have sx: "sum_list (map (\<lambda>p. (pos_x p + rotatedLength p / 2) * item_weight p) (packedItems ?R))
      = 25 * 10 + 75 * 10" by code_simp
  have sy: "sum_list (map (\<lambda>p. (pos_y p + rotatedWidth p / 2) * item_weight p) (packedItems ?R))
      = 25 * 10 + 25 * 10" by code_simp
  have sz: "sum_list (map (\<lambda>p. (pos_z p + item_height p / 2) * item_weight p) (packedItems ?R))
      = 25 * 10 + 25 * 10" by code_simp
  note T = center_of_gravity_balance [of "[cube50 1, cube50 2]" binLarge]
  from mp [OF T [THEN conjunct2, THEN conjunct1] h] have "centerOfGravity ?R =
          (sum_list (map (\<lambda>p. (pos_x p + rotatedLength p / 2) * item_weight p) (packedItems ?R))
             / sum_list (map item_weight (packedItems ?R)),
           sum_list (map (\<lambda>p. (pos_y p + rotatedWidth p / 2) * item_weight p) (packedItems ?R))
             / sum_list (map item_weight (packedItems ?R)),
           sum_list (map (\<lambda>p. (pos_z p + item_height p / 2) * item_weight p) (packedItems ?R))
             / sum_list (map item_weight (packedItems ?R)))" .
  moreover from T [THEN conjunct2, THEN conjunct2, THEN conjunct1] w
  have "sum_list (map item_weight (packedItems ?R)) = 20" by simp
  ultimately have c: "centerOfGravity ?R
       = ((25 * 10 + 75 * 10) / 20, (25 * 10 + 25 * 10) / 20, (25 * 10 + 25 * 10) / 20)"
    unfolding sx sy sz by simp
  from T [THEN conjunct2, THEN conjunct2, THEN conjunct2, THEN conjunct1] c
  have b: "isBalanced ?R = False"
    by (simp add: binLarge_def)
  have l: "list_all (\<lambda>i. 0 \<le> item_weight i) [cube50 1, cube50 2]" by code_simp
  from z c0 l w c b show ?thesis by (intro conjI)
qed

section \<open>The sections of the load plan\<close>

lemma assignSections_take_drop:
  "assignSections k i us (b, m, f)
     = (b @ take (k - i) us, m @ drop (k - i) (take (k * 2 - i) us), f @ drop (k * 2 - i) us)"
proof (induction us arbitrary: i b m f)
  case Nil
  then show ?case by simp
next
  case (Cons u us)
  consider (inBack) "i < k" | (inMiddle) "\<not> i < k" "i < k * 2"
    | (inFront) "\<not> i < k" "\<not> i < k * 2"
    by blast
  then show ?case
  proof cases
    case inBack
    then have "k - i = Suc (k - Suc i)" and "k * 2 - i = Suc (k * 2 - Suc i)" by simp_all
    with inBack Cons.IH [of "Suc i" "b @ [u]" m f] show ?thesis by simp
  next
    case inMiddle
    then have "k - i = 0" and "k - Suc i = 0" and "k * 2 - i = Suc (k * 2 - Suc i)" by simp_all
    with inMiddle Cons.IH [of "Suc i" b "m @ [u]" f] show ?thesis by simp
  next
    case inFront
    then have "k - i = 0" and "k - Suc i = 0" and "k * 2 - i = 0" and "k * 2 - Suc i = 0"
      by simp_all
    with inFront Cons.IH [of "Suc i" b m "f @ [u]"] show ?thesis by simp
  qed
qed

lemma sectionsOf_take_drop:
  "sectionsOf s =
     (take (itemsPerSectionOf (length s)) s,
      take (itemsPerSectionOf (length s)) (drop (itemsPerSectionOf (length s)) s),
      drop (2 * itemsPerSectionOf (length s)) s)"
  by (simp add: sectionsOf_def assignSections_take_drop drop_take mult.commute)

lemma sorted_map_split:
  assumes "sorted (map g (xs @ ys))"
  shows "\<forall>x \<in> set xs. \<forall>y \<in> set ys. g x \<le> g y"
  using assms by (auto simp: sorted_append)

lemma sorted_filter_split:
  "sorted (map g xs) \<Longrightarrow> xs = filter (\<lambda>x. g x < c) xs @ filter (\<lambda>x. \<not> g x < c) xs"
proof (induction xs)
  case Nil
  then show ?case by simp
next
  case (Cons x xs)
  from Cons.prems have s: "sorted (map g xs)" and le: "\<forall>y \<in> set xs. g x \<le> g y" by simp_all
  show ?case
  proof (cases "g x < c")
    case True
    with Cons.IH [OF s] show ?thesis by simp
  next
    case False
    with le have "\<forall>y \<in> set xs. \<not> g y < c" by auto
    then have "filter (\<lambda>x. g x < c) xs = []" and "filter (\<lambda>x. \<not> g x < c) xs = xs"
      by (simp_all add: filter_empty_conv filter_id_conv)
    with False show ?thesis by simp
  qed
qed

lemma sequenceOf_absent:
  "\<forall>r \<in> set route. rs_orderId r \<noteq> o_id ord \<Longrightarrow> sequenceOf route ord = 999"
proof -
  assume "\<forall>r \<in> set route. rs_orderId r \<noteq> o_id ord"
  then have "find (\<lambda>r. rs_orderId r = o_id ord) route = None"
    by (simp add: find_None_iff)
  then show ?thesis by (simp add: sequenceOf_def)
qed

lemma sequenceOf_found:
  "find (\<lambda>r. rs_orderId r = o_id ord) route = Some r
     \<Longrightarrow> sequenceOf route ord = (if rs_sequence r = 0 then 999 else rs_sequence r)"
  by (simp add: sequenceOf_def)

lemma sequenceOf_positive: "1 \<le> sequenceOf route ord"
  by (simp add: sequenceOf_def split: option.splits)

lemma expandUnits_origin:
  "u \<in> set (expandUnits os route) \<Longrightarrow>
     \<exists>ord \<in> set os. lu_item u \<in> set (items ord) \<and> lu_orderId u = o_id ord
        \<and> lu_sequence u = sequenceOf route ord"
  by (auto simp: expandUnits_def)

text \<open>
  Claim C8, as amended.  \<open>generateLoadPlan\<close> sorts the expanded item units by descending stop
  sequence number.  A unit carries the sequence number of the first stop of the route for its
  order, and the number 999 when the order has no stop on the route or that stop has the
  number 0; so every unit has a number of at least 1.  The generator splits the depth of the
  truck into three equal Y-bands, and cuts the sorted list of \<open>n\<close> units at \<open>k = ceil (n / 3)\<close>
  and \<open>2 k\<close>: the first \<open>k\<close> units, the latest deliveries, go to the back, the next \<open>k\<close> (or as
  many as remain) to the middle, and the rest, possibly none, to the front.  The groups are
  contiguous; they have the same size when \<open>n\<close> is a multiple of 3; and no unit of a later
  group has a higher sequence number than a unit of an earlier group.  For every \<open>m\<close> the units
  with a sequence number of at most \<open>m\<close> are the last of the sorted list; in particular the
  units of the stop with the number 1 end it, though they need not all be in the front group.
  Each group is then packed into its band.
\<close>

theorem load_plan_sections:
  "sectionsOf (sortBySequenceDesc (expandUnits (loadedOrders trip) route))
     = (take (itemsPerSectionOf (length (expandUnits (loadedOrders trip) route)))
          (sortBySequenceDesc (expandUnits (loadedOrders trip) route)),
        take (itemsPerSectionOf (length (expandUnits (loadedOrders trip) route)))
          (drop (itemsPerSectionOf (length (expandUnits (loadedOrders trip) route)))
             (sortBySequenceDesc (expandUnits (loadedOrders trip) route))),
        drop (2 * itemsPerSectionOf (length (expandUnits (loadedOrders trip) route)))
          (sortBySequenceDesc (expandUnits (loadedOrders trip) route)))
   \<and> itemsPerSectionOf (length (expandUnits (loadedOrders trip) route))
       = nat \<lceil>real (length (expandUnits (loadedOrders trip) route)) / 3\<rceil>
   \<and> sorted (map (\<lambda>u. - int (lu_sequence u))
        (sortBySequenceDesc (expandUnits (loadedOrders trip) route)))
   \<and> mset (sortBySequenceDesc (expandUnits (loadedOrders trip) route))
       = mset (expandUnits (loadedOrders trip) route)
   \<and> (sectionsOf (sortBySequenceDesc (expandUnits (loadedOrders trip) route)) = (back, middle, front)
        \<longrightarrow> back @ middle @ front = sortBySequenceDesc (expandUnits (loadedOrders trip) route)
          \<and> (\<forall>u \<in> set back. \<forall>v \<in> set (middle @ front). lu_sequence v \<le> lu_sequence u)
          \<and> (\<forall>u \<in> set middle. \<forall>v \<in> set front. lu_sequence v \<le> lu_sequence u)
          \<and> (3 dvd length (expandUnits (loadedOrders trip) route) \<longrightarrow>
               length back = length (expandUnits (loadedOrders trip) route) div 3
               \<and> length middle = length (expandUnits (loadedOrders trip) route) div 3
               \<and> length front = length (expandUnits (loadedOrders trip) route) div 3)
          \<and> generateLoadPlan trip route tk
              = foldl (packSection tk) [] [(Back, back), (Middle, middle), (Front, front)])
   \<and> sectionBand tk Back = (0, tk_depth tk / 3)
   \<and> sectionBand tk Middle = (tk_depth tk / 3, tk_depth tk / 3 * 2)
   \<and> sectionBand tk Front = (tk_depth tk / 3 * 2, tk_depth tk)
   \<and> ((\<forall>r \<in> set route. rs_orderId r \<noteq> o_id ord) \<longrightarrow> sequenceOf route ord = 999)
   \<and> (find (\<lambda>r. rs_orderId r = o_id ord) route = Some stop \<longrightarrow>
        sequenceOf route ord = (if rs_sequence stop = 0 then 999 else rs_sequence stop))
   \<and> (\<forall>u \<in> set (expandUnits (loadedOrders trip) route).
        1 \<le> lu_sequence u
        \<and> (\<exists>ord \<in> set (loadedOrders trip).
              lu_item u \<in> set (items ord) \<and> lu_orderId u = o_id ord
              \<and> lu_sequence u = sequenceOf route ord))
   \<and> sortBySequenceDesc (expandUnits (loadedOrders trip) route)
       = filter (\<lambda>u. m < lu_sequence u) (sortBySequenceDesc (expandUnits (loadedOrders trip) route))
         @ filter (\<lambda>u. lu_sequence u \<le> m)
             (sortBySequenceDesc (expandUnits (loadedOrders trip) route))
   \<and> sortBySequenceDesc (expandUnits (loadedOrders trip) route)
       = filter (\<lambda>u. lu_sequence u \<noteq> 1) (sortBySequenceDesc (expandUnits (loadedOrders trip) route))
         @ filter (\<lambda>u. lu_sequence u = 1)
             (sortBySequenceDesc (expandUnits (loadedOrders trip) route))"
proof -
  let ?us = "expandUnits (loadedOrders trip) route"
  let ?s = "sortBySequenceDesc ?us"
  let ?k = "itemsPerSectionOf (length ?us)"
  have len: "length ?s = length ?us" by (simp add: sortBySequenceDesc_def)
  have A: "sectionsOf ?s = (take ?k ?s, take ?k (drop ?k ?s), drop (2 * ?k) ?s)"
    using sectionsOf_take_drop [of ?s] by (simp only: len)
  have K: "?k = nat \<lceil>real (length ?us) / 3\<rceil>"
  proof -
    have "\<lceil>real (length ?us) / 3\<rceil> = \<lceil>real_of_int (int (length ?us)) / real_of_int 3\<rceil>" by simp
    also have "\<dots> = - (- int (length ?us) div 3)" by (rule ceiling_divide_eq_div)
    also have "\<dots> = int ((length ?us + 2) div 3)" by linarith
    finally show ?thesis by (simp add: itemsPerSectionOf_def)
  qed
  have S: "sorted (map (\<lambda>u. - int (lu_sequence u)) ?s)"
    by (simp add: sortBySequenceDesc_def)
  have M: "mset ?s = mset ?us" by (simp add: sortBySequenceDesc_def)
  have P: "back @ middle @ front = ?s
          \<and> (\<forall>u \<in> set back. \<forall>v \<in> set (middle @ front). lu_sequence v \<le> lu_sequence u)
          \<and> (\<forall>u \<in> set middle. \<forall>v \<in> set front. lu_sequence v \<le> lu_sequence u)
          \<and> (3 dvd length ?us \<longrightarrow> length back = length ?us div 3
               \<and> length middle = length ?us div 3 \<and> length front = length ?us div 3)
          \<and> generateLoadPlan trip route tk
              = foldl (packSection tk) [] [(Back, back), (Middle, middle), (Front, front)]"
    if eq: "sectionsOf ?s = (back, middle, front)"
  proof -
    from eq A have b: "back = take ?k ?s" and m: "middle = take ?k (drop ?k ?s)"
      and f: "front = drop (2 * ?k) ?s" by simp_all
    have mf: "middle @ front = drop ?k ?s"
      unfolding m f by (metis append_take_drop_id drop_drop mult_2)
    then have cat: "back @ middle @ front = ?s" unfolding b by simp
    from S cat have "sorted (map (\<lambda>u. - int (lu_sequence u)) (back @ (middle @ front)))" by simp
    from sorted_map_split [OF this]
    have o1: "\<forall>u \<in> set back. \<forall>v \<in> set (middle @ front). lu_sequence v \<le> lu_sequence u" by simp
    from S cat have "sorted (map (\<lambda>u. - int (lu_sequence u)) (middle @ front))"
      by (metis map_append sorted_append)
    from sorted_map_split [OF this]
    have o2: "\<forall>u \<in> set middle. \<forall>v \<in> set front. lu_sequence v \<le> lu_sequence u" by simp
    have sz: "length back = length ?us div 3 \<and> length middle = length ?us div 3
        \<and> length front = length ?us div 3" if "3 dvd length ?us"
    proof -
      from that obtain q where q: "length ?us = 3 * q" by (auto simp: dvd_def)
      then have "?k = q" by (simp add: itemsPerSectionOf_def)
      with q len show ?thesis unfolding b m f by simp
    qed
    have g: "generateLoadPlan trip route tk
              = foldl (packSection tk) [] [(Back, back), (Middle, middle), (Front, front)]"
      using eq by (simp add: generateLoadPlan_def)
    from cat o1 o2 sz g show ?thesis by blast
  qed
  have B: "sectionBand tk Back = (0, tk_depth tk / 3)"
    "sectionBand tk Middle = (tk_depth tk / 3, tk_depth tk / 3 * 2)"
    "sectionBand tk Front = (tk_depth tk / 3 * 2, tk_depth tk)"
    by (simp_all add: sectionBand_def Let_def)
  have Q1: "(\<forall>r \<in> set route. rs_orderId r \<noteq> o_id ord) \<longrightarrow> sequenceOf route ord = 999"
    using sequenceOf_absent by blast
  have Q2: "find (\<lambda>r. rs_orderId r = o_id ord) route = Some stop \<longrightarrow>
        sequenceOf route ord = (if rs_sequence stop = 0 then 999 else rs_sequence stop)"
    using sequenceOf_found by blast
  have U: "\<forall>u \<in> set ?us. 1 \<le> lu_sequence u
        \<and> (\<exists>ord \<in> set (loadedOrders trip).
              lu_item u \<in> set (items ord) \<and> lu_orderId u = o_id ord
              \<and> lu_sequence u = sequenceOf route ord)"
  proof
    fix u assume "u \<in> set ?us"
    from expandUnits_origin [OF this] obtain ord' where o: "ord' \<in> set (loadedOrders trip)"
      "lu_item u \<in> set (items ord')" "lu_orderId u = o_id ord'"
      "lu_sequence u = sequenceOf route ord'" by blast
    from o(4) sequenceOf_positive [of route ord'] have "1 \<le> lu_sequence u" by simp
    with o show "1 \<le> lu_sequence u
        \<and> (\<exists>ord \<in> set (loadedOrders trip).
              lu_item u \<in> set (items ord) \<and> lu_orderId u = o_id ord
              \<and> lu_sequence u = sequenceOf route ord)" by blast
  qed
  have F: "?s = filter (\<lambda>u. n < lu_sequence u) ?s @ filter (\<lambda>u. lu_sequence u \<le> n) ?s" for n
    using sorted_filter_split [OF S, of "- int n"] by (simp add: not_less)
  have F1: "?s = filter (\<lambda>u. lu_sequence u \<noteq> 1) ?s @ filter (\<lambda>u. lu_sequence u = 1) ?s"
  proof -
    from U M have pos: "\<forall>u \<in> set ?s. 1 \<le> lu_sequence u"
      by (metis mset_eq_setD)
    then have "filter (\<lambda>u. 1 < lu_sequence u) ?s = filter (\<lambda>u. lu_sequence u \<noteq> 1) ?s"
      and "filter (\<lambda>u. lu_sequence u \<le> 1) ?s = filter (\<lambda>u. lu_sequence u = 1) ?s"
      by (auto intro!: filter_cong)
    with F [of 1] show ?thesis by simp
  qed
  note Fm = F [of m]
  show ?thesis
    using A K S M P B Q1 Q2 U Fm F1 by (intro conjI) (assumption | rule impI, erule P)+
qed

theorem load_plan_sections_witness:
  "map (map lu_sequence)
     [fst (sectionsOf (sortBySequenceDesc (expandUnits (loadedOrders tripTwo) routeTwo))),
      fst (snd (sectionsOf (sortBySequenceDesc (expandUnits (loadedOrders tripTwo) routeTwo)))),
      snd (snd (sectionsOf (sortBySequenceDesc (expandUnits (loadedOrders tripTwo) routeTwo))))]
     = [[2, 2], [2, 1], []]
   \<and> map lp_placement (generateLoadPlan tripTwo routeTwo tkSmall) = [Back, Back, Middle, Middle]
   \<and> sectionBand tkSmall Middle = (100 / 3, 100 / 3 * 2)
   \<and> list_all (\<lambda>r. rs_orderId r \<noteq> o_id ordThree) routeOne
   \<and> sequenceOf routeOne ordThree = 999
   \<and> map lu_sequence (sortBySequenceDesc (expandUnits (loadedOrders tripTwo) routeOne))
       = [999, 999, 999, 1]"
proof -
  let ?S = "sortBySequenceDesc (expandUnits (loadedOrders tripTwo) routeTwo)"
  note T = load_plan_sections [of tripTwo routeTwo "take 2 ?S" "take 2 (drop 2 ?S)" "drop 4 ?S" tkSmall]
  have k: "itemsPerSectionOf (length (expandUnits (loadedOrders tripTwo) routeTwo)) = 2"
    by code_simp
  from T [THEN conjunct1] have eq: "sectionsOf ?S = (take 2 ?S, take 2 (drop 2 ?S), drop 4 ?S)"
    unfolding k by simp
  have v: "map (map lu_sequence) [take 2 ?S, take 2 (drop 2 ?S), drop 4 ?S] = [[2, 2], [2, 1], []]"
    by code_simp
  have a: "map (map lu_sequence) [fst (sectionsOf ?S), fst (snd (sectionsOf ?S)),
      snd (snd (sectionsOf ?S))] = [[2, 2], [2, 1], []]"
    unfolding eq fst_conv snd_conv by (rule v)
  have p: "map lp_placement (generateLoadPlan tripTwo routeTwo tkSmall)
      = [Back, Back, Middle, Middle]"
    by code_simp
  from T [THEN conjunct2, THEN conjunct2, THEN conjunct2, THEN conjunct2, THEN conjunct2,
      THEN conjunct2, THEN conjunct1]
  have b: "sectionBand tkSmall Middle = (100 / 3, 100 / 3 * 2)"
    by (simp add: tkSmall_def)
  have h: "\<forall>r \<in> set routeOne. rs_orderId r \<noteq> o_id ordThree" by code_simp
  note T1 = load_plan_sections [where route = routeOne and ord = ordThree and trip = tripTwo]
  from mp [OF T1 [THEN conjunct2, THEN conjunct2, THEN conjunct2, THEN conjunct2, THEN conjunct2,
      THEN conjunct2, THEN conjunct2, THEN conjunct2, THEN conjunct1] h]
  have q: "sequenceOf routeOne ordThree = 999" .
  from h have l: "list_all (\<lambda>r. rs_orderId r \<noteq> o_id ordThree) routeOne"
    by (simp add: list_all_iff)
  have e: "map lu_sequence (sortBySequenceDesc (expandUnits (loadedOrders tripTwo) routeOne))
       = [999, 999, 999, 1]"
    by code_simp
  from a p b l q e show ?thesis by (intro conjI)
qed

text \<open>
  The claim as stated fails: a trip with a single unit, the order of the first stop, has the
  groups of sizes 1, 0 and 0, and the unit of the first stop is placed at the back.
\<close>

theorem load_plan_first_stop_counterexample:
  "map rs_sequence routeOne = [1]
   \<and> map lu_orderId
        (fst (sectionsOf (sortBySequenceDesc (expandUnits (loadedOrders tripOne) routeOne)))) = [1]
   \<and> fst (snd (sectionsOf (sortBySequenceDesc (expandUnits (loadedOrders tripOne) routeOne)))) = []
   \<and> snd (snd (sectionsOf (sortBySequenceDesc (expandUnits (loadedOrders tripOne) routeOne)))) = []
   \<and> map lp_orderId (generateLoadPlan tripOne routeOne tkSmall) = [1]
   \<and> map lp_placement (generateLoadPlan tripOne routeOne tkSmall) = [Back]"
  by code_simp

section \<open>The helper budget of the single-trip planner\<close>

text \<open>
  Claim C9 does not hold of the code.  With one helper available, the order \<open>poB\<close> joins the
  truck opened for \<open>poA\<close>: the truck now needs one helper, and the budget is not decremented.
  The order \<open>poC\<close> then passes the budget check and opens a second truck that needs one helper
  too.  Two helpers are needed, by the trucks and by the assigned orders, where one is
  available.
\<close>

theorem helper_budget_exceeded:
  "map (map po_id) (map ta_orders (assignOrdersToTrucks [poA, poB, poC] [tkSmall, tkSecond] 1))
     = [[1, 2], [3]]
   \<and> map ta_helpersNeeded (assignOrdersToTrucks [poA, poB, poC] [tkSmall, tkSecond] 1) = [1, 1]
   \<and> sum_list (map ta_helpersNeeded (assignOrdersToTrucks [poA, poB, poC] [tkSmall, tkSecond] 1))
       = 2
   \<and> sum_list (map helperCount (map po_helpersRequired
        (concat (map ta_orders (assignOrdersToTrucks [poA, poB, poC] [tkSmall, tkSecond] 1))))) = 2
   \<and> remainingHelpers (assignOrder
        \<lparr>assignments = assignOrdersToTrucks [poA] [tkSmall, tkSecond] 1,
         availableTrucks = [tkSecond], remainingHelpers = 1\<rparr> poB) = 1"
  by code_simp

end
